theory Spec2Isabelle
  imports Main "HOL-Library.Word"
begin

unbundle bit_operations_syntax

section \<open>Machine types and errors\<close>

text \<open>
  \<open>unsigned int\<close> is a 32-bit word, \<open>Helium::Word\<close> a 64-bit word (the writer's
  index arithmetic has the literal 64, and the row-major reader fills a \<open>Word\<close> with
  \<open>read64\<close>), a \<open>char\<close> of a file is a byte. A buffer (\<open>Word *\<close>) is the list of its
  words; an access outside it is undefined behaviour in C++ and is the error
  \<open>OutOfBounds\<close> here.
\<close>

type_synonym byte = "8 word"
type_synonym u32 = "32 word"
type_synonym Word = "64 word"

datatype error =
    CouldNotOpen      \<comment> \<open>\<open>std::runtime_error\<close>: could not open the file\<close>
  | NotAnInvertedFingerprintFile
                      \<comment> \<open>\<open>std::runtime_error\<close>: the magic number is wrong\<close>
  | AssertionFailed   \<comment> \<open>a failed \<open>assert\<close>\<close>
  | DivisionByZero    \<comment> \<open>\<open>%\<close> with a zero divisor\<close>
  | OutOfBounds       \<comment> \<open>a read or write outside a buffer\<close>

text \<open>A \<open>for\<close> loop over the values \<open>xs\<close>, stopping at the first failure.\<close>

fun for_loop :: "'a list \<Rightarrow> ('a \<Rightarrow> 's \<Rightarrow> error + 's) \<Rightarrow> 's \<Rightarrow> error + 's" where
  "for_loop [] body s = Inr s"
| "for_loop (x # xs) body s =
     (case body x s of Inl e \<Rightarrow> Inl e | Inr s' \<Rightarrow> for_loop xs body s')"

section \<open>bitvec.h\<close>

text \<open>
  Modelled from the spec: \<open>bitvec.h\<close> (\<open>zero\<close>, \<open>set\<close>, \<open>get\<close>) is not among the
  sources. Section 4.1: bit \<open>i\<close> lives in word \<open>i / bits_per_word\<close>, position
  \<open>i % bits_per_word\<close>; there are no bounds checks, the caller supplies the number of
  words. The \<open>numWords\<close> argument of \<open>set\<close> therefore plays no part.
\<close>

definition BitsPerWord :: nat where
  "BitsPerWord = 64"

definition zero_bitvec :: "Word list \<Rightarrow> nat \<Rightarrow> error + Word list" where
  "zero_bitvec bitvec numWords =
     (if numWords \<le> length bitvec
      then Inr (replicate numWords 0 @ drop numWords bitvec)
      else Inl OutOfBounds)"

definition get_bitvec :: "nat \<Rightarrow> Word list \<Rightarrow> error + bool" where
  "get_bitvec index bitvec =
     (if index div BitsPerWord < length bitvec
      then Inr (bit (bitvec ! (index div BitsPerWord)) (index mod BitsPerWord))
      else Inl OutOfBounds)"

definition set_bitvec :: "nat \<Rightarrow> Word list \<Rightarrow> error + Word list" where
  "set_bitvec index bitvec =
     (if index div BitsPerWord < length bitvec
      then Inr (bitvec[index div BitsPerWord :=
                  (bitvec ! (index div BitsPerWord)) OR push_bit (index mod BitsPerWord) 1])
      else Inl OutOfBounds)"

section \<open>fingerprints.h: the three fingerprint functions\<close>

text \<open>
  An \<open>int\<close> argument is a 32-bit word read as two's complement (\<open>sint\<close>);
  \<open>std::size_t\<close> is a 64-bit word. Comparing or dividing a \<open>size_t\<close> with an
  \<open>int\<close> converts the \<open>int\<close> to \<open>size_t\<close> (sign extension, \<open>scast\<close>).
\<close>

type_synonym int32 = "32 word"
type_synonym size_t = "64 word"

text \<open>\<open>assert(hashPrime <= numWords * sizeof(Word) * 8)\<close>: the right-hand side is a
  \<open>size_t\<close>, so both sides are compared as unsigned 64-bit values.\<close>

definition hashPrime_assertion :: "int32 \<Rightarrow> int32 \<Rightarrow> bool" where
  "hashPrime_assertion numWords hashPrime \<longleftrightarrow>
     (scast hashPrime :: size_t) \<le> scast numWords * 8 * 8"

text \<open>\<open>set(hash(code) % hashPrime, fingerprint, numWords)\<close> for the hash value \<open>h\<close>.\<close>

definition set_hashed :: "size_t \<Rightarrow> int32 \<Rightarrow> Word list \<Rightarrow> error + Word list" where
  "set_hashed h hashPrime fingerprint =
     (if (scast hashPrime :: size_t) = 0 then Inl DivisionByZero
      else set_bitvec (unat (h mod scast hashPrime)) fingerprint)"

text \<open>
  The enumerators, the canonical coder and \<open>boost::hash\<close> are not among the sources;
  they are parameters: \<open>enumerate_paths mol size_k\<close> is the vector of paths (\<open>size_k\<close>
  is the source's \<open>size\<close>),
  \<open>canonicalize_path mol path\<close> the canonical code of a path, \<open>hash\<close> the hash of a
  code. The buffer \<open>fingerprint\<close> comes in with whatever it held before the call.
\<close>

definition path_fingerprint ::
  "('mol \<Rightarrow> int32 \<Rightarrow> 'path list) \<Rightarrow> ('mol \<Rightarrow> 'path \<Rightarrow> 'code) \<Rightarrow> ('code \<Rightarrow> size_t) \<Rightarrow>
   'mol \<Rightarrow> Word list \<Rightarrow> int32 \<Rightarrow> int32 \<Rightarrow> int32 \<Rightarrow> error + Word list" where
  "path_fingerprint enumerate_paths canonicalize_path hash mol fingerprint size_k numWords hashPrime =
     (if \<not> hashPrime_assertion numWords hashPrime then Inl AssertionFailed
      else case zero_bitvec fingerprint (nat (sint numWords)) of
        Inl e \<Rightarrow> Inl e
      | Inr fp \<Rightarrow>
          for_loop (enumerate_paths mol size_k)
            (\<lambda>path. set_hashed (hash (canonicalize_path mol path)) hashPrime) fp)"

text \<open>
  \<open>impl::SubgraphsFingerprint\<close>: the callback's constructor zeroes the buffer,
  \<open>enumerate_subgraphs mol size_k trees\<close> is the sequence of subgraphs handed to the
  callback, and \<open>canonicalize mol subgraph\<close> stands for the canonical code of the
  substructure (\<open>extended_connectivities\<close>, then \<open>canonicalize\<close>).
\<close>

definition EnumerateSubgraphsCallback :: "Word list \<Rightarrow> int32 \<Rightarrow> error + Word list" where
  "EnumerateSubgraphsCallback fp words = zero_bitvec fp (nat (sint words))"

definition callback ::
  "('mol \<Rightarrow> 'sub \<Rightarrow> 'code) \<Rightarrow> ('code \<Rightarrow> size_t) \<Rightarrow> 'mol \<Rightarrow> int32 \<Rightarrow> 'sub \<Rightarrow>
   Word list \<Rightarrow> error + Word list" where
  "callback canonicalize hash mol hashPrime subgraph fingerprint =
     set_hashed (hash (canonicalize mol subgraph)) hashPrime fingerprint"

definition SubgraphsFingerprint ::
  "('mol \<Rightarrow> int32 \<Rightarrow> bool \<Rightarrow> 'sub list) \<Rightarrow> ('mol \<Rightarrow> 'sub \<Rightarrow> 'code) \<Rightarrow> ('code \<Rightarrow> size_t) \<Rightarrow>
   'mol \<Rightarrow> Word list \<Rightarrow> int32 \<Rightarrow> bool \<Rightarrow> int32 \<Rightarrow> int32 \<Rightarrow> error + Word list" where
  "SubgraphsFingerprint enumerate_subgraphs canonicalize hash mol fp size_k trees numWords hashPrime =
     (case EnumerateSubgraphsCallback fp numWords of
        Inl e \<Rightarrow> Inl e
      | Inr fp' \<Rightarrow>
          for_loop (enumerate_subgraphs mol size_k trees)
            (callback canonicalize hash mol hashPrime) fp')"

definition tree_fingerprint ::
  "('mol \<Rightarrow> int32 \<Rightarrow> bool \<Rightarrow> 'sub list) \<Rightarrow> ('mol \<Rightarrow> 'sub \<Rightarrow> 'code) \<Rightarrow> ('code \<Rightarrow> size_t) \<Rightarrow>
   'mol \<Rightarrow> Word list \<Rightarrow> int32 \<Rightarrow> int32 \<Rightarrow> int32 \<Rightarrow> error + Word list" where
  "tree_fingerprint enumerate_subgraphs canonicalize hash mol fingerprint size_k numWords hashPrime =
     (if \<not> hashPrime_assertion numWords hashPrime then Inl AssertionFailed
      else SubgraphsFingerprint enumerate_subgraphs canonicalize hash mol fingerprint size_k True
             numWords hashPrime)"

definition subgraph_fingerprint ::
  "('mol \<Rightarrow> int32 \<Rightarrow> bool \<Rightarrow> 'sub list) \<Rightarrow> ('mol \<Rightarrow> 'sub \<Rightarrow> 'code) \<Rightarrow> ('code \<Rightarrow> size_t) \<Rightarrow>
   'mol \<Rightarrow> Word list \<Rightarrow> int32 \<Rightarrow> int32 \<Rightarrow> int32 \<Rightarrow> error + Word list" where
  "subgraph_fingerprint enumerate_subgraphs canonicalize hash mol fingerprint size_k numWords hashPrime =
     (if \<not> hashPrime_assertion numWords hashPrime then Inl AssertionFailed
      else SubgraphsFingerprint enumerate_subgraphs canonicalize hash mol fingerprint size_k False
             numWords hashPrime)"

section \<open>Files, streams and raw memory\<close>

text \<open>
  A file is its list of bytes. \<open>reinterpret_cast<char*>\<close> views an object as its bytes;
  section 6 of the spec fixes the byte order as little-endian: \<open>le_bytes n w\<close> are the
  \<open>n\<close> bytes of \<open>w\<close>, least significant first, and \<open>le_word\<close> reads them back.
\<close>

definition le_bytes :: "nat \<Rightarrow> 'a::len word \<Rightarrow> byte list" where
  "le_bytes n w = map (\<lambda>k. ucast (drop_bit (8 * k) w)) [0..<n]"

primrec le_word :: "byte list \<Rightarrow> 'a::len word" where
  "le_word [] = 0"
| "le_word (b # bs) = ucast b OR push_bit 8 (le_word bs)"

text \<open>
  Memory that \<open>new\<close> or a constructor leaves uninitialised holds indeterminate values:
  they are a parameter \<open>junk\<close> of the model, the byte or word found at each place.
\<close>

definition zero_memory :: "nat \<Rightarrow> 'a::zero" where
  "zero_memory place = 0"

text \<open>
  \<open>std::ifstream\<close>: the bytes of the file, the read position, and whether the stream
  still converts to \<open>true\<close> (\<open>!fail()\<close>). A file that cannot be opened gives a failed
  stream. \<open>read\<close> of \<open>n\<close> bytes delivers the bytes that are left, at most \<open>n\<close>, and
  fails the stream when they are fewer; on a failed stream \<open>read\<close> and \<open>seekg\<close> do
  nothing. \<open>store\<close> puts the bytes read at the start of the destination memory.
\<close>

record ifstream =
  contents :: "byte list"
  pos :: nat
  good :: bool

definition open_ifstream :: "byte list option \<Rightarrow> ifstream" where
  "open_ifstream file =
     (case file of
        None \<Rightarrow> \<lparr> contents = [], pos = 0, good = False \<rparr>
      | Some bytes \<Rightarrow> \<lparr> contents = bytes, pos = 0, good = True \<rparr>)"

definition istream_read :: "ifstream \<Rightarrow> nat \<Rightarrow> byte list \<times> ifstream" where
  "istream_read ifs n =
     (if \<not> good ifs then ([], ifs)
      else let bytes = take n (drop (pos ifs) (contents ifs))
           in (bytes, ifs \<lparr> pos := pos ifs + length bytes, good := (length bytes = n) \<rparr>))"

definition seekg :: "ifstream \<Rightarrow> nat \<Rightarrow> ifstream" where
  "seekg ifs p = (if \<not> good ifs then ifs else ifs \<lparr> pos := p \<rparr>)"

definition store :: "byte list \<Rightarrow> byte list \<Rightarrow> byte list" where
  "store bytes memory = bytes @ drop (length bytes) memory"

text \<open>Word \<open>j\<close> of a \<open>Word\<close> array held as raw memory.\<close>

definition word_at :: "byte list \<Rightarrow> nat \<Rightarrow> error + Word" where
  "word_at memory j =
     (if 8 * j + 8 \<le> length memory
      then Inr (le_word (take 8 (drop (8 * j) memory)))
      else Inl OutOfBounds)"

section \<open>The inverted archive: header and writer\<close>

record InvertedFingerprintFileHeader =
  magic_number :: u32
  bits_per_word :: u32
  bits_per_fingerprint :: u32
  words_per_fingerprint :: u32
  words_per_fpbit :: u32
  num_fingerprints :: u32

definition get_magic_number :: u32 where
  "get_magic_number = 0x48650001"

definition sizeof_header :: nat where
  "sizeof_header = 24"

text \<open>The six \<open>unsigned int\<close> fields of the header, as its 24 bytes and back.\<close>

definition bytes_of_header :: "InvertedFingerprintFileHeader \<Rightarrow> byte list" where
  "bytes_of_header h =
     le_bytes 4 (magic_number h) @ le_bytes 4 (bits_per_word h) @
     le_bytes 4 (bits_per_fingerprint h) @ le_bytes 4 (words_per_fingerprint h) @
     le_bytes 4 (words_per_fpbit h) @ le_bytes 4 (num_fingerprints h)"

definition header_of_bytes :: "byte list \<Rightarrow> InvertedFingerprintFileHeader" where
  "header_of_bytes memory =
     \<lparr> magic_number = le_word (take 4 memory),
       bits_per_word = le_word (take 4 (drop 4 memory)),
       bits_per_fingerprint = le_word (take 4 (drop 8 memory)),
       words_per_fingerprint = le_word (take 4 (drop 12 memory)),
       words_per_fpbit = le_word (take 4 (drop 16 memory)),
       num_fingerprints = le_word (take 4 (drop 20 memory)) \<rparr>"

text \<open>
  The header as the writer's constructor sets it up: every field is an
  \<open>unsigned int\<close>, so the sums and quotients are those of 32-bit words.
\<close>

definition setup_header :: "u32 \<Rightarrow> u32 \<Rightarrow> InvertedFingerprintFileHeader" where
  "setup_header bitsPerFingerprint numFingerprints =
     \<lparr> magic_number = get_magic_number,
       bits_per_word = 64,
       bits_per_fingerprint = bitsPerFingerprint,
       words_per_fingerprint = bitsPerFingerprint div 64,
       words_per_fpbit = (numFingerprints + numFingerprints mod 64) div 64,
       num_fingerprints = numFingerprints \<rparr>"

text \<open>
  \<open>InvertedFingerprintOutputFile\<close>. \<open>m_ofs\<close> holds the bytes written to the file so
  far. \<open>openable\<close> says whether the file can be opened for writing; \<open>junk\<close> is what
  \<open>new Word[...]\<close> returns (the constructor does not clear it). The size of the array is
  the \<open>unsigned int\<close> product \<open>words_per_fpbit * bits_per_fingerprint\<close>.
\<close>

record InvertedFingerprintOutputFile =
  m_header :: InvertedFingerprintFileHeader
  m_ofs :: "byte list"
  m_current :: u32
  m_data :: "Word list"

definition InvertedFingerprintOutputFile_ctor ::
  "u32 \<Rightarrow> u32 \<Rightarrow> bool \<Rightarrow> (nat \<Rightarrow> Word) \<Rightarrow> error + InvertedFingerprintOutputFile" where
  "InvertedFingerprintOutputFile_ctor bitsPerFingerprint numFingerprints openable junk =
     (let h = setup_header bitsPerFingerprint numFingerprints
      in if \<not> openable then Inl CouldNotOpen
         else Inr \<lparr> m_header = h,
                    m_ofs = bytes_of_header h,
                    m_current = 0,
                    m_data = map junk [0..<unat (words_per_fpbit h * bits_per_fingerprint h)] \<rparr>)"

text \<open>
  \<open>write\<close> (here \<open>write_fingerprint\<close>): the bit index \<open>i * words_per_fpbit * 64 + m_current\<close> is an
  \<open>unsigned int\<close> expression. There is no check of \<open>m_current\<close> against
  \<open>num_fingerprints\<close>.
\<close>

definition write_bit ::
  "InvertedFingerprintOutputFile \<Rightarrow> Word list \<Rightarrow> nat \<Rightarrow> Word list \<Rightarrow> error + Word list" where
  "write_bit w fingerprint i data =
     (case get_bitvec i fingerprint of
        Inl e \<Rightarrow> Inl e
      | Inr b \<Rightarrow>
          if \<not> b then Inr data
          else set_bitvec
                 (unat (of_nat i * words_per_fpbit (m_header w) * 64 + m_current w)) data)"

definition write_fingerprint ::
  "InvertedFingerprintOutputFile \<Rightarrow> Word list \<Rightarrow> error + InvertedFingerprintOutputFile" where
  "write_fingerprint w fingerprint =
     (case for_loop [0..<unat (bits_per_fingerprint (m_header w))] (write_bit w fingerprint)
             (m_data w) of
        Inl e \<Rightarrow> Inl e
      | Inr data \<Rightarrow> Inr (w \<lparr> m_data := data, m_current := m_current w + 1 \<rparr>))"

text \<open>The destructor writes the whole array after the header: the finished file.\<close>

definition InvertedFingerprintOutputFile_dtor :: "InvertedFingerprintOutputFile \<Rightarrow> byte list" where
  "InvertedFingerprintOutputFile_dtor w =
     m_ofs w @
     take (unat (words_per_fpbit (m_header w) * bits_per_fingerprint (m_header w)) * 8)
       (concat (map (le_bytes 8) (m_data w)))"

text \<open>
  An archive built the way the index tools do: construct the writer, write each
  fingerprint in turn, destroy the writer.
\<close>

definition write_all ::
  "InvertedFingerprintOutputFile \<Rightarrow> Word list list \<Rightarrow> error + InvertedFingerprintOutputFile" where
  "write_all w fingerprints =
     for_loop fingerprints (\<lambda>fingerprint w. write_fingerprint w fingerprint) w"

definition build_archive :: "u32 \<Rightarrow> u32 \<Rightarrow> (nat \<Rightarrow> Word) \<Rightarrow> Word list list \<Rightarrow> error + byte list" where
  "build_archive bitsPerFingerprint numFingerprints junk fingerprints =
     (case InvertedFingerprintOutputFile_ctor bitsPerFingerprint numFingerprints True junk of
        Inl e \<Rightarrow> Inl e
      | Inr w \<Rightarrow>
          (case write_all w fingerprints of
             Inl e \<Rightarrow> Inl e
           | Inr w' \<Rightarrow> Inr (InvertedFingerprintOutputFile_dtor w')))"

section \<open>The inverted archive: the two readers\<close>

text \<open>
  Both constructors read \<open>sizeof(InvertedFingerprintFileHeader)\<close> bytes into
  \<open>m_header\<close> and compare the magic number; neither looks at the state of the stream
  after the read. The header's own constructor has set \<open>magic_number\<close> before; its
  other fields are uninitialised (\<open>junk_header\<close>).
\<close>

definition read_header :: "ifstream \<Rightarrow> (nat \<Rightarrow> byte) \<Rightarrow> InvertedFingerprintFileHeader \<times> ifstream" where
  "read_header ifs junk_header =
     (let memory = le_bytes 4 get_magic_number @ map junk_header [4..<sizeof_header];
          (bytes, ifs') = istream_read ifs sizeof_header
      in (header_of_bytes (store bytes memory), ifs'))"

text \<open>
  \<open>InvertedFingerprintFile\<close>, the seeking reader: \<open>m_ifs_file\<close> and \<open>m_data_file\<close>
  are its \<open>m_ifs\<close> and \<open>m_data\<close> (a scratch row of \<open>words_per_fpbit\<close> words, as raw
  memory).
\<close>

record InvertedFingerprintFile =
  m_header_file :: InvertedFingerprintFileHeader
  m_ifs_file :: ifstream
  m_data_file :: "byte list"

definition InvertedFingerprintFile_ctor ::
  "byte list option \<Rightarrow> (nat \<Rightarrow> byte) \<Rightarrow> (nat \<Rightarrow> byte) \<Rightarrow> error + InvertedFingerprintFile" where
  "InvertedFingerprintFile_ctor file junk_header junk_data =
     (let ifs = open_ifstream file
      in if \<not> good ifs then Inl CouldNotOpen
         else let (h, ifs') = read_header ifs junk_header
              in if magic_number h \<noteq> get_magic_number then Inl NotAnInvertedFingerprintFile
                 else Inr \<lparr> m_header_file = h,
                            m_ifs_file = ifs',
                            m_data_file = map junk_data [0..<unat (words_per_fpbit h) * 8] \<rparr>)"

text \<open>The two inner loops of \<open>search\<close>, over a row whose word \<open>j\<close> is \<open>row j\<close>.\<close>

definition assign_row :: "(nat \<Rightarrow> error + Word) \<Rightarrow> nat \<Rightarrow> Word list \<Rightarrow> error + Word list" where
  "assign_row row n result =
     for_loop [0..<n]
       (\<lambda>j result. case row j of
            Inl e \<Rightarrow> Inl e
          | Inr x \<Rightarrow> if j < length result then Inr (result[j := x]) else Inl OutOfBounds)
       result"

definition intersect_row :: "(nat \<Rightarrow> error + Word) \<Rightarrow> nat \<Rightarrow> Word list \<Rightarrow> error + Word list" where
  "intersect_row row n result =
     for_loop [0..<n]
       (\<lambda>j result. case row j of
            Inl e \<Rightarrow> Inl e
          | Inr x \<Rightarrow> if j < length result then Inr (result[j := (result ! j) AND x])
                    else Inl OutOfBounds)
       result"

text \<open>
  One round of the seeking reader's outer loop. The state is \<open>first\<close>, the result
  buffer, the stream and the scratch row.
\<close>

definition search_file_bit ::
  "InvertedFingerprintFileHeader \<Rightarrow> Word list \<Rightarrow> nat \<Rightarrow>
   bool \<times> Word list \<times> ifstream \<times> byte list \<Rightarrow> error + (bool \<times> Word list \<times> ifstream \<times> byte list)" where
  "search_file_bit h fingerprint i state =
     (case state of (first, result, ifs, data) \<Rightarrow>
        (case get_bitvec i fingerprint of
           Inl e \<Rightarrow> Inl e
         | Inr b \<Rightarrow>
             if \<not> b then Inr state
             else
               let offset = (of_nat i :: u32) * words_per_fpbit h;
                   ifs1 = seekg ifs (sizeof_header + unat offset * 8);
                   (bytes, ifs2) = istream_read ifs1 (unat (words_per_fpbit h) * 8);
                   data' = store bytes data
               in case (if first then assign_row (word_at data') (unat (words_per_fpbit h)) result
                        else intersect_row (word_at data') (unat (words_per_fpbit h)) result) of
                    Inl e \<Rightarrow> Inl e
                  | Inr result' \<Rightarrow> Inr (False, result', ifs2, data')))"

definition search_file ::
  "InvertedFingerprintFile \<Rightarrow> Word list \<Rightarrow> Word list \<Rightarrow> error + (Word list \<times> InvertedFingerprintFile)" where
  "search_file r fingerprint result =
     (case for_loop [0..<unat (bits_per_fingerprint (m_header_file r))]
             (search_file_bit (m_header_file r) fingerprint)
             (True, result, m_ifs_file r, m_data_file r) of
        Inl e \<Rightarrow> Inl e
      | Inr (first, result', ifs, data) \<Rightarrow>
          Inr (result', r \<lparr> m_ifs_file := ifs, m_data_file := data \<rparr>))"

text \<open>
  \<open>InvertedFingerprintFileCached\<close>, the cached reader: \<open>m_data_cached\<close> is its
  \<open>m_data\<close>, an array of the \<open>unsigned int\<close> product
  \<open>words_per_fpbit * bits_per_fingerprint\<close> words filled by one \<open>read\<close>.
\<close>

record InvertedFingerprintFileCached =
  m_header_cached :: InvertedFingerprintFileHeader
  m_data_cached :: "byte list"

definition InvertedFingerprintFileCached_ctor ::
  "byte list option \<Rightarrow> (nat \<Rightarrow> byte) \<Rightarrow> (nat \<Rightarrow> byte) \<Rightarrow> error + InvertedFingerprintFileCached" where
  "InvertedFingerprintFileCached_ctor file junk_header junk_data =
     (let ifs = open_ifstream file
      in if \<not> good ifs then Inl CouldNotOpen
         else let (h, ifs') = read_header ifs junk_header
              in if magic_number h \<noteq> get_magic_number then Inl NotAnInvertedFingerprintFile
                 else let n = unat (words_per_fpbit h * bits_per_fingerprint h) * 8;
                          (bytes, ifs'') = istream_read ifs' n
                      in Inr \<lparr> m_header_cached = h,
                                 m_data_cached = store bytes (map junk_data [0..<n]) \<rparr>)"

text \<open>One round of the cached reader's outer loop; \<open>offset + j\<close> is an \<open>unsigned int\<close>.\<close>

definition search_cached_bit ::
  "InvertedFingerprintFileCached \<Rightarrow> Word list \<Rightarrow> nat \<Rightarrow>
   bool \<times> Word list \<Rightarrow> error + (bool \<times> Word list)" where
  "search_cached_bit c fingerprint i state =
     (case state of (first, result) \<Rightarrow>
        (case get_bitvec i fingerprint of
           Inl e \<Rightarrow> Inl e
         | Inr b \<Rightarrow>
             if \<not> b then Inr state
             else
               let offset = (of_nat i :: u32) * words_per_fpbit (m_header_cached c);
                   row = (\<lambda>j. word_at (m_data_cached c) (unat (offset + of_nat j)))
               in case (if first
                        then assign_row row (unat (words_per_fpbit (m_header_cached c))) result
                        else intersect_row row (unat (words_per_fpbit (m_header_cached c))) result) of
                    Inl e \<Rightarrow> Inl e
                  | Inr result' \<Rightarrow> Inr (False, result')))"

definition search_cached ::
  "InvertedFingerprintFileCached \<Rightarrow> Word list \<Rightarrow> Word list \<Rightarrow> error + Word list" where
  "search_cached c fingerprint result =
     (case for_loop [0..<unat (bits_per_fingerprint (m_header_cached c))]
             (search_cached_bit c fingerprint) (True, result) of
        Inl e \<Rightarrow> Inl e
      | Inr (first, result') \<Rightarrow> Inr result')"


section \<open>The row-major reader\<close>

text \<open>
  Modelled from the spec: \<open>read32\<close> and \<open>read64\<close> are not among the sources. They
  fill an integer from the next 4 or 8 bytes of the stream, least significant byte first
  (section 6.1: little-endian); a short read leaves the rest of the integer as it was.
\<close>

definition read32 :: "ifstream \<Rightarrow> u32 \<Rightarrow> u32 \<times> ifstream" where
  "read32 ifs x =
     (let (bytes, ifs') = istream_read ifs 4 in (le_word (store bytes (le_bytes 4 x)), ifs'))"

definition read64 :: "ifstream \<Rightarrow> Word \<Rightarrow> Word \<times> ifstream" where
  "read64 ifs x =
     (let (bytes, ifs') = istream_read ifs 8 in (le_word (store bytes (le_bytes 8 x)), ifs'))"

text \<open>
  \<open>FingerprintFile\<close>. \<open>m_current_fp\<close> is its \<open>m_current\<close>, an \<open>unsigned int\<close>
  that starts at \<open>-1\<close>; \<open>m_numFingerprints\<close> stays uninitialised (\<open>junk\<close>) when the
  file cannot be opened.
\<close>

record FingerprintFile =
  m_ifs :: ifstream
  m_numFingerprints :: u32
  m_current_fp :: u32
  m_numWords :: int32

definition FingerprintFile_ctor :: "byte list option \<Rightarrow> u32 \<Rightarrow> FingerprintFile" where
  "FingerprintFile_ctor file junk =
     (let ifs = open_ifstream file;
          (n, ifs') = (if good ifs then read32 ifs junk else (junk, ifs))
      in \<lparr> m_ifs = ifs', m_numFingerprints = n, m_current_fp = - 1, m_numWords = 16 \<rparr>)"

definition current :: "FingerprintFile \<Rightarrow> u32" where
  "current ff = m_current_fp ff"

text \<open>\<open>read64(m_ifs, fingerprint[i])\<close>, on the buffer and the stream.\<close>

definition read_word :: "nat \<Rightarrow> Word list \<times> ifstream \<Rightarrow> error + (Word list \<times> ifstream)" where
  "read_word i state =
     (case state of (fingerprint, ifs) \<Rightarrow>
        if i < length fingerprint
        then let (x, ifs') = read64 ifs (fingerprint ! i) in Inr (fingerprint[i := x], ifs')
        else Inl OutOfBounds)"

text \<open>\<open>read_fingerprint\<close> returns its \<open>bool\<close>, the buffer and the reader.\<close>

definition read_fingerprint ::
  "FingerprintFile \<Rightarrow> Word list \<Rightarrow> error + (bool \<times> Word list \<times> FingerprintFile)" where
  "read_fingerprint ff fingerprint =
     (if \<not> good (m_ifs ff) then Inr (False, fingerprint, ff)
      else let ff1 = ff \<lparr> m_current_fp := m_current_fp ff + 1 \<rparr>
           in if m_current_fp ff1 = m_numFingerprints ff1 then Inr (False, fingerprint, ff1)
              else case for_loop [0..<nat (sint (m_numWords ff1))] read_word
                          (fingerprint, m_ifs ff1) of
                     Inl e \<Rightarrow> Inl e
                   | Inr (fingerprint', ifs') \<Rightarrow>
                       Inr (good ifs', fingerprint', ff1 \<lparr> m_ifs := ifs' \<rparr>))"

text \<open>The words of a file from byte \<open>start\<close> on, 8 bytes each.\<close>

definition words_from :: "byte list \<Rightarrow> nat \<Rightarrow> nat \<Rightarrow> Word list" where
  "words_from bytes start n = map (\<lambda>i. le_word (take 8 (drop (start + 8 * i) bytes))) [0..<n]"

text \<open>\<open>k\<close> calls of \<open>read_fingerprint\<close> in a row, with the value each returned.\<close>

fun read_fingerprints ::
  "nat \<Rightarrow> FingerprintFile \<Rightarrow> Word list \<Rightarrow> error + (bool list \<times> Word list \<times> FingerprintFile)" where
  "read_fingerprints 0 ff fingerprint = Inr ([], fingerprint, ff)"
| "read_fingerprints (Suc k) ff fingerprint =
     (case read_fingerprint ff fingerprint of
        Inl e \<Rightarrow> Inl e
      | Inr (b, fingerprint', ff') \<Rightarrow>
          (case read_fingerprints k ff' fingerprint' of
             Inl e \<Rightarrow> Inl e
           | Inr (bs, fingerprint'', ff'') \<Rightarrow> Inr (b # bs, fingerprint'', ff'')))"

section \<open>Example inputs\<close>

text \<open>Concrete collaborators and inputs, for evaluating the definitions.\<close>

definition example_enumerate_paths :: "nat list \<Rightarrow> int32 \<Rightarrow> nat list list" where
  "example_enumerate_paths mol size_k = map (\<lambda>atom. [atom]) mol"

definition example_canonicalize_path :: "nat list \<Rightarrow> nat list \<Rightarrow> nat list" where
  "example_canonicalize_path mol path = path"

definition example_enumerate_subgraphs :: "nat list \<Rightarrow> int32 \<Rightarrow> bool \<Rightarrow> nat list list" where
  "example_enumerate_subgraphs mol size_k trees =
     (if trees then map (\<lambda>atom. [atom]) mol else [mol])"

definition example_hash :: "nat list \<Rightarrow> size_t" where
  "example_hash code = of_nat (700 * sum_list code)"


text \<open>
  An archive for 64 fingerprints of 64 bits with three fingerprints written:
  fingerprint 0 has bits 0 and 1, fingerprint 1 has bit 0, fingerprint 2 has bits 1 and 2.
\<close>

definition example_archive :: "byte list" where
  "example_archive =
     bytes_of_header (setup_header 64 64) @
     concat (map (le_bytes 8) ([3, 5, 4] @ replicate 61 0 :: Word list))"



text \<open>The two readers after opening \<open>example_archive\<close>.\<close>

definition example_reader :: InvertedFingerprintFile where
  "example_reader =
     \<lparr> m_header_file = setup_header 64 64,
       m_ifs_file = \<lparr> contents = example_archive, pos = 24, good = True \<rparr>,
       m_data_file = replicate 8 85 \<rparr>"

definition example_cached :: InvertedFingerprintFileCached where
  "example_cached =
     \<lparr> m_header_cached = setup_header 64 64, m_data_cached = drop 24 example_archive \<rparr>"

text \<open>
  A writer for 32 fingerprints of 64 bits: as constructed over cleared memory, and after
  32 fingerprints without a set bit.
\<close>

definition example_writer :: InvertedFingerprintOutputFile where
  "example_writer =
     \<lparr> m_header = setup_header 64 32,
       m_ofs = bytes_of_header (setup_header 64 32),
       m_current = 0,
       m_data = replicate 64 0 \<rparr>"

definition example_writer_full :: InvertedFingerprintOutputFile where
  "example_writer_full = example_writer \<lparr> m_current := 32 \<rparr>"

text \<open>
  What the writer leaves for 65 fingerprints of 64 bits when fingerprints 0 to 63 have
  no bit and fingerprint 64 has bit 0, and the cached reader over that file.
\<close>

definition example_archive_65 :: "byte list" where
  "example_archive_65 =
     bytes_of_header (setup_header 64 65) @
     concat (map (le_bytes 8) ([0, 1] @ replicate 62 0 :: Word list))"

definition example_cached_65 :: InvertedFingerprintFileCached where
  "example_cached_65 =
     \<lparr> m_header_cached = setup_header 64 65, m_data_cached = drop 24 example_archive_65 \<rparr>"

text \<open>
  A row-major file: the count 1, one fingerprint of 16 words (the words 1 to 16), and
  two more bytes.
\<close>

definition example_fingerprint_file :: "byte list" where
  "example_fingerprint_file =
     le_bytes 4 (1 :: u32) @ concat (map (le_bytes 8) (map of_nat [1..<17] :: Word list)) @
     [123, 125]"

definition example_fingerprint_reader :: FingerprintFile where
  "example_fingerprint_reader =
     \<lparr> m_ifs = \<lparr> contents = example_fingerprint_file, pos = 4, good = True \<rparr>,
       m_numFingerprints = 1, m_current_fp = - 1, m_numWords = 16 \<rparr>"

definition example_fingerprint_reader_1 :: FingerprintFile where
  "example_fingerprint_reader_1 =
     \<lparr> m_ifs = \<lparr> contents = example_fingerprint_file, pos = 132, good = True \<rparr>,
       m_numFingerprints = 1, m_current_fp = 0, m_numWords = 16 \<rparr>"


text \<open>
  A row-major file whose count is 1 and that holds 256 more bytes: the words 1 to 16 and
  the words 17 to 32.
\<close>

definition example_fingerprint_file_long :: "byte list" where
  "example_fingerprint_file_long =
     le_bytes 4 (1 :: u32) @ concat (map (le_bytes 8) (map of_nat [1..<33] :: Word list))"

definition example_fingerprint_reader_long :: "nat \<Rightarrow> u32 \<Rightarrow> FingerprintFile" where
  "example_fingerprint_reader_long p n =
     \<lparr> m_ifs = \<lparr> contents = example_fingerprint_file_long, pos = p, good = True \<rparr>,
       m_numFingerprints = 1, m_current_fp = n, m_numWords = 16 \<rparr>"
section \<open>Loops and bit vectors\<close>

lemma for_loop_rule:
  assumes "P s"
    and "\<And>x s. x \<in> set xs \<Longrightarrow> P s \<Longrightarrow> (case body x s of Inl e \<Rightarrow> Q e | Inr s' \<Rightarrow> P s')"
  shows "case for_loop xs body s of Inl e \<Rightarrow> Q e | Inr t \<Rightarrow> P t"
  using assms
proof (induction xs arbitrary: s)
  case Nil
  then show ?case by simp
next
  case (Cons x xs)
  have step: "case body x s of Inl e \<Rightarrow> Q e | Inr s' \<Rightarrow> P s'"
    using Cons.prems by simp
  show ?case
  proof (cases "body x s")
    case (Inl e)
    then show ?thesis using step by simp
  next
    case (Inr s')
    then have "P s'" using step by simp
    then have "case for_loop xs body s' of Inl e \<Rightarrow> Q e | Inr t \<Rightarrow> P t"
      using Cons.prems(2) by (intro Cons.IH) auto
    then show ?thesis using Inr by simp
  qed
qed

lemma for_loop_append:
  "for_loop (xs @ ys) body s =
     (case for_loop xs body s of Inl e \<Rightarrow> Inl e | Inr s' \<Rightarrow> for_loop ys body s')"
  by (induction xs arbitrary: s) (auto split: sum.splits)

lemma index_eq_iff: "(i::nat) = j \<longleftrightarrow> i div 64 = j div 64 \<and> i mod 64 = j mod 64"
  by (metis div_mult_mod_eq)

lemma bit_or_one: "bit ((w::Word) OR 2 ^ k) j \<longleftrightarrow> bit w j \<or> (j = k \<and> k < 64)"
  by (auto simp: bit_simps)

lemma get_set_bitvec:
  assumes "set_bitvec idx fp = Inr fp'"
  shows "get_bitvec i fp' =
    (if i = idx then Inr True else get_bitvec i fp)"
proof -
  have in_range: "idx div 64 < length fp" and fp': "fp' = fp[idx div 64 := (fp ! (idx div 64)) OR push_bit (idx mod 64) 1]"
    using assms by (auto simp: set_bitvec_def BitsPerWord_def split: if_splits)
  show ?thesis
  proof (cases "i div 64 < length fp")
    case False
    then have "i \<noteq> idx" using in_range by auto
    then show ?thesis using False by (simp add: get_bitvec_def fp' BitsPerWord_def)
  next
    case True
    show ?thesis
    proof (cases "i div 64 = idx div 64")
      case same: True
      then show ?thesis using True in_range
        by (simp add: get_bitvec_def fp' BitsPerWord_def bit_or_one index_eq_iff [of i idx])
    next
      case False
      then have "i \<noteq> idx" by auto
      then show ?thesis using True False
        by (simp add: get_bitvec_def fp' BitsPerWord_def)
    qed
  qed
qed

lemma get_zero_bitvec:
  assumes "zero_bitvec fp n = Inr fp'" and "i < n * 64"
  shows "get_bitvec i fp' = Inr False"
proof -
  have n: "n \<le> length fp" and fp': "fp' = replicate n 0 @ drop n fp"
    using assms(1) by (auto simp: zero_bitvec_def split: if_splits)
  have "i div 64 < n" using assms(2) by (simp add: less_mult_imp_div_less)
  then show ?thesis using n by (simp add: get_bitvec_def fp' BitsPerWord_def nth_append)
qed

section \<open>Facts about the fingerprint functions\<close>

lemma uint_scast: "uint (scast (w::int32) :: size_t) = sint w mod 18446744073709551616"
proof -
  have "uint (scast w :: size_t) = sint w mod 2 ^ LENGTH(64)"
    by (simp only: scast_eq uint_word_of_int)
  then show ?thesis by simp
qed

lemma scast_neg:
  fixes w :: int32
  assumes "sint w < 0"
  shows "18446744071562067968 \<le> unat (scast w :: size_t)"
proof -
  have lo: "- 2147483648 \<le> sint w" using sint_ge [of w] by simp
  have "sint w mod 18446744073709551616 = (sint w + 18446744073709551616) mod 18446744073709551616"
    by simp
  also have "\<dots> = sint w + 18446744073709551616"
    using lo assms by (intro mod_pos_pos_trivial; linarith)
  finally have "uint (scast w :: size_t) = sint w + 18446744073709551616"
    by (simp only: uint_scast)
  then have "unat (scast w :: size_t) = nat (sint w + 18446744073709551616)"
    by (simp only: unat_eq_nat_uint)
  then show ?thesis using lo by linarith
qed

lemma scast_nonneg:
  fixes w :: int32
  assumes "0 \<le> sint w"
  shows "unat (scast w :: size_t) = nat (sint w)"
proof -
  have "sint w < 2147483648" using sint_lt [of w] by simp
  then have "sint w mod 18446744073709551616 = sint w"
    using assms by (intro mod_pos_pos_trivial; linarith)
  then show ?thesis by (simp only: unat_eq_nat_uint uint_scast)
qed

text \<open>The right-hand side of the assertion, for a non-negative \<open>numWords\<close>: no wrap-around.\<close>

lemma unat_numWords_bits:
  fixes w :: int32
  assumes "0 \<le> sint w"
  shows "unat (64 * scast w :: size_t) = nat (sint w) * 64"
proof -
  have lt: "nat (sint w) < 2147483648" using sint_lt [of w] assms by simp
  have "unat ((64 :: size_t) * scast w) = unat (64 :: size_t) * unat (scast w :: size_t)"
    using lt by (subst unat_mult_lem [symmetric]) (simp add: scast_nonneg [OF assms])
  then show ?thesis by (simp add: scast_nonneg [OF assms])
qed

lemma assertion_nonneg:
  assumes "hashPrime_assertion numWords hashPrime" and "0 \<le> sint numWords"
  shows "0 \<le> sint hashPrime \<and> nat (sint hashPrime) \<le> nat (sint numWords) * 64"
proof -
  have le: "unat (scast hashPrime :: size_t) \<le> nat (sint numWords) * 64"
    using assms by (simp add: hashPrime_assertion_def word_le_nat_alt unat_numWords_bits)
  have "nat (sint numWords) < 2147483648" using sint_lt [of numWords] assms(2) by simp
  then have small: "unat (scast hashPrime :: size_t) < 18446744071562067968" using le by linarith
  have "0 \<le> sint hashPrime"
  proof (rule ccontr)
    assume "\<not> 0 \<le> sint hashPrime"
    then have "18446744071562067968 \<le> unat (scast hashPrime :: size_t)"
      by (intro scast_neg) simp
    then show False using small by simp
  qed
  then show ?thesis using le by (simp add: scast_nonneg)
qed

lemma assertion_holds:
  assumes "0 \<le> sint hashPrime" and "sint hashPrime \<le> sint numWords * 64"
  shows "hashPrime_assertion numWords hashPrime"
proof -
  have w: "0 \<le> sint numWords" using assms by linarith
  have "nat (sint hashPrime) \<le> nat (sint numWords) * 64" using assms by linarith
  then show ?thesis
    using assms(1) w
    by (simp add: hashPrime_assertion_def word_le_nat_alt unat_numWords_bits scast_nonneg)
qed

lemma hashed_index_less:
  assumes "(scast hashPrime :: size_t) \<noteq> 0"
  shows "unat (h mod scast hashPrime :: size_t) < unat (scast hashPrime :: size_t)"
proof -
  have "0 < unat (scast hashPrime :: size_t)" using assms by (simp add: unat_gt_0)
  then show ?thesis by (simp add: unat_mod)
qed

lemma callback_eq:
  "callback canonicalize hash mol hashPrime =
     (\<lambda>subgraph. set_hashed (hash (canonicalize mol subgraph)) hashPrime)"
  by (rule ext, rule ext) (simp add: callback_def)

lemma set_hashed_keeps_high_bits:
  assumes "set_hashed h p fp = Inr fp'" and "unat (scast p :: size_t) \<le> i"
  shows "get_bitvec i fp' = get_bitvec i fp"
proof -
  have nz: "(scast p :: size_t) \<noteq> 0"
    and set: "set_bitvec (unat (h mod scast p :: size_t)) fp = Inr fp'"
    using assms(1) by (auto simp: set_hashed_def split: if_splits)
  have "unat (h mod scast p :: size_t) \<noteq> i"
    using hashed_index_less [OF nz, of h] assms(2) by simp
  then show ?thesis using get_set_bitvec [OF set, of i] by simp
qed

lemma hashed_loop_keeps_high_bits:
  assumes "for_loop xs (\<lambda>x. set_hashed (f x) p) z = Inr fp"
    and "unat (scast p :: size_t) \<le> i"
    and "get_bitvec i z = Inr False"
  shows "get_bitvec i fp = Inr False"
proof -
  have "case for_loop xs (\<lambda>x. set_hashed (f x) p) z of
          Inl e \<Rightarrow> True | Inr t \<Rightarrow> get_bitvec i t = Inr False"
  proof (rule for_loop_rule [where P = "\<lambda>t. get_bitvec i t = Inr False"])
    show "get_bitvec i z = Inr False" by (rule assms(3))
  next
    fix x s
    assume "get_bitvec i s = Inr False"
    then show "case set_hashed (f x) p s of Inl e \<Rightarrow> True | Inr s' \<Rightarrow> get_bitvec i s' = Inr False"
      using set_hashed_keeps_high_bits [OF _ assms(2)] by (simp split: sum.splits)
  qed
  then show ?thesis using assms(1) by simp
qed

lemma zeroed_loop_prime_bound:
  assumes assertion: "hashPrime_assertion numWords hashPrime"
    and zero: "zero_bitvec fp0 (nat (sint numWords)) = Inr z"
    and loop: "for_loop xs (\<lambda>x. set_hashed (f x) hashPrime) z = Inr fp"
    and "sint hashPrime \<le> int i" and "i < nat (sint numWords) * 64"
  shows "get_bitvec i fp = Inr False"
proof -
  have "0 \<le> sint numWords" using assms(5) by (cases "0 \<le> sint numWords") auto
  then have "0 \<le> sint hashPrime" using assertion_nonneg [OF assertion] by simp
  then have "unat (scast hashPrime :: size_t) \<le> i"
    using assms(4) by (simp add: scast_nonneg)
  moreover have "get_bitvec i z = Inr False"
    using zero assms(5) by (rule get_zero_bitvec)
  ultimately show ?thesis by (rule hashed_loop_keeps_high_bits [OF loop])
qed

lemma path_fingerprint_Inr:
  assumes "path_fingerprint enumerate_paths canonicalize_path hash mol fp0 size_k numWords hashPrime = Inr fp"
  shows "hashPrime_assertion numWords hashPrime \<and>
         (\<exists>z. zero_bitvec fp0 (nat (sint numWords)) = Inr z \<and>
              for_loop (enumerate_paths mol size_k)
                (\<lambda>path. set_hashed (hash (canonicalize_path mol path)) hashPrime) z = Inr fp)"
  using assms unfolding path_fingerprint_def
  by (simp split: if_splits sum.splits)

lemma SubgraphsFingerprint_Inr:
  assumes "SubgraphsFingerprint enumerate_subgraphs canonicalize hash mol fp0 size_k trees numWords hashPrime = Inr fp"
  shows "\<exists>z. zero_bitvec fp0 (nat (sint numWords)) = Inr z \<and>
              for_loop (enumerate_subgraphs mol size_k trees)
                (\<lambda>subgraph. set_hashed (hash (canonicalize mol subgraph)) hashPrime) z = Inr fp"
  using assms unfolding SubgraphsFingerprint_def EnumerateSubgraphsCallback_def callback_eq
  by (simp split: sum.splits)

lemma tree_fingerprint_Inr:
  assumes "tree_fingerprint enumerate_subgraphs canonicalize hash mol fp0 size_k numWords hashPrime = Inr fp"
  shows "hashPrime_assertion numWords hashPrime \<and>
         SubgraphsFingerprint enumerate_subgraphs canonicalize hash mol fp0 size_k True numWords hashPrime = Inr fp"
  using assms unfolding tree_fingerprint_def by (simp split: if_splits)

lemma subgraph_fingerprint_Inr:
  assumes "subgraph_fingerprint enumerate_subgraphs canonicalize hash mol fp0 size_k numWords hashPrime = Inr fp"
  shows "hashPrime_assertion numWords hashPrime \<and>
         SubgraphsFingerprint enumerate_subgraphs canonicalize hash mol fp0 size_k False numWords hashPrime = Inr fp"
  using assms unfolding subgraph_fingerprint_def by (simp split: if_splits)


lemma zero_bitvec_exact:
  assumes "int (length fp) = sint numWords"
  shows "zero_bitvec fp (nat (sint numWords)) = Inr (replicate (length fp) 0)"
proof -
  have "nat (sint numWords) = length fp" using assms by linarith
  then show ?thesis by (simp add: zero_bitvec_def)
qed


lemma set_hashed_in_bounds:
  assumes "unat (scast p :: size_t) \<le> length s * 64"
  shows "case set_hashed h p s of
           Inl e \<Rightarrow> e = DivisionByZero \<and> (scast p :: size_t) = 0
         | Inr s' \<Rightarrow> length s' = length s"
proof (cases "(scast p :: size_t) = 0")
  case True
  then show ?thesis by (simp add: set_hashed_def)
next
  case False
  have "unat (h mod scast p :: size_t) < length s * 64"
    using hashed_index_less [OF False, of h] assms by linarith
  then have "unat (h mod scast p :: size_t) div 64 < length s"
    by (simp add: less_mult_imp_div_less)
  then show ?thesis using False by (simp add: set_hashed_def set_bitvec_def BitsPerWord_def)
qed

lemma hashed_loop_in_bounds:
  assumes "unat (scast p :: size_t) \<le> length z * 64"
  shows "case for_loop xs (\<lambda>x. set_hashed (f x) p) z of
           Inl e \<Rightarrow> e = DivisionByZero \<and> (scast p :: size_t) = 0
         | Inr t \<Rightarrow> length t = length z"
proof (rule for_loop_rule [where P = "\<lambda>t. length t = length z"])
  show "length z = length z" by simp
next
  fix x and s :: "Word list"
  assume "length s = length z"
  then have "unat (scast p :: size_t) \<le> length s * 64" using assms by simp
  from set_hashed_in_bounds [OF this, of "f x"]
  show "case set_hashed (f x) p s of
          Inl e \<Rightarrow> e = DivisionByZero \<and> (scast p :: size_t) = 0
        | Inr s' \<Rightarrow> length s' = length z"
    using \<open>length s = length z\<close> by (simp split: sum.splits)
qed

lemma zeroed_loop_in_bounds:
  assumes "0 \<le> sint hashPrime" and "sint hashPrime \<le> sint numWords * 64"
    and "int (length fp0) = sint numWords"
  shows "case (case zero_bitvec fp0 (nat (sint numWords)) of
                 Inl e \<Rightarrow> Inl e
               | Inr z \<Rightarrow> for_loop xs (\<lambda>x. set_hashed (f x) hashPrime) z) of
           Inl e \<Rightarrow> e = DivisionByZero \<and> sint hashPrime = 0
         | Inr t \<Rightarrow> length t = length fp0"
proof -
  let ?z = "replicate (length fp0) (0 :: Word)"
  have "unat (scast hashPrime :: size_t) = nat (sint hashPrime)"
    using assms(1) by (rule scast_nonneg)
  then have le: "unat (scast hashPrime :: size_t) \<le> length ?z * 64"
    using assms by simp
  have zero_iff: "(scast hashPrime :: size_t) = 0 \<longleftrightarrow> sint hashPrime = 0"
    using assms(1) scast_nonneg [OF assms(1)] by (simp add: unat_eq_0 [symmetric])
  from hashed_loop_in_bounds [OF le, of xs f]
  show ?thesis
    by (simp add: zero_bitvec_exact [OF assms(3)] zero_iff split: sum.splits)
qed

section \<open>Facts about the inverted archive\<close>

lemma for_loop_skip:
  assumes "\<And>x. x \<in> set xs \<Longrightarrow> body x s = Inr s"
  shows "for_loop xs body s = Inr s"
  using assms by (induction xs) auto



text \<open>A query without a set bit: neither search enters the body of its loop.\<close>

lemma search_file_empty_query:
  assumes "\<forall>i < unat (bits_per_fingerprint (m_header_file r)). get_bitvec i fingerprint = Inr False"
  shows "search_file r fingerprint result = Inr (result, r)"
proof -
  have "for_loop [0..<unat (bits_per_fingerprint (m_header_file r))]
          (search_file_bit (m_header_file r) fingerprint)
          (True, result, m_ifs_file r, m_data_file r)
        = Inr (True, result, m_ifs_file r, m_data_file r)"
    using assms by (intro for_loop_skip) (simp add: search_file_bit_def)
  then show ?thesis by (simp add: search_file_def)
qed

lemma search_cached_empty_query:
  assumes "\<forall>i < unat (bits_per_fingerprint (m_header_cached c)). get_bitvec i fingerprint = Inr False"
  shows "search_cached c fingerprint result = Inr result"
proof -
  have "for_loop [0..<unat (bits_per_fingerprint (m_header_cached c))]
          (search_cached_bit c fingerprint) (True, result) = Inr (True, result)"
    using assms by (intro for_loop_skip) (simp add: search_cached_bit_def)
  then show ?thesis by (simp add: search_cached_def)
qed

lemma write_bit_in_bounds:
  assumes "i div 64 < length fingerprint"
    and "get_bitvec i fingerprint = Inr True \<longrightarrow>
           unat (of_nat i * words_per_fpbit (m_header w) * 64 + m_current w) div 64 < length data"
  shows "\<exists>data'. write_bit w fingerprint i data = Inr data' \<and> length data' = length data"
proof (cases "get_bitvec i fingerprint = Inr True")
  case True
  then show ?thesis using assms(2) by (simp add: write_bit_def set_bitvec_def BitsPerWord_def)
next
  case False
  then have "get_bitvec i fingerprint = Inr False"
    using assms(1) by (auto simp: get_bitvec_def BitsPerWord_def)
  then show ?thesis by (simp add: write_bit_def)
qed

lemma write_fingerprint_no_bits:
  assumes "\<forall>i < unat (bits_per_fingerprint (m_header w)). get_bitvec i fingerprint = Inr False"
  shows "write_fingerprint w fingerprint = Inr (w \<lparr> m_current := m_current w + 1 \<rparr>)"
proof -
  have "for_loop [0..<unat (bits_per_fingerprint (m_header w))] (write_bit w fingerprint) (m_data w)
          = Inr (m_data w)"
    using assms by (intro for_loop_skip) (simp add: write_bit_def)
  then show ?thesis by (simp add: write_fingerprint_def)
qed

lemma write_all_no_bits:
  assumes "\<forall>i < unat (bits_per_fingerprint (m_header w)). get_bitvec i fingerprint = Inr False"
  shows "write_all w (replicate n fingerprint) = Inr (w \<lparr> m_current := m_current w + of_nat n \<rparr>)"
  using assms
proof (induction n arbitrary: w)
  case 0
  then show ?case by (simp add: write_all_def)
next
  case (Suc n)
  have "write_all (w \<lparr> m_current := m_current w + 1 \<rparr>) (replicate n fingerprint)
          = Inr (w \<lparr> m_current := m_current w + 1 + of_nat n \<rparr>)"
    using Suc.prems Suc.IH [of "w \<lparr> m_current := m_current w + 1 \<rparr>"] by simp
  then show ?case
    using write_fingerprint_no_bits [OF Suc.prems]
    by (simp add: write_all_def add.assoc add.commute)
qed

lemma istream_read_enough:
  assumes "good ifs" and "pos ifs + n \<le> length (contents ifs)"
  shows "istream_read ifs n =
           (take n (drop (pos ifs) (contents ifs)), ifs \<lparr> pos := pos ifs + n, good := True \<rparr>)"
  using assms by (simp add: istream_read_def Let_def min_def)

lemma store_whole: "length bytes = length memory \<Longrightarrow> store bytes memory = bytes"
  by (simp add: store_def)

lemma length_le_bytes: "length (le_bytes n w) = n"
  by (simp add: le_bytes_def)

text \<open>A file that holds a whole header: what \<open>read_header\<close> delivers.\<close>

lemma read_header_enough:
  assumes "sizeof_header \<le> length file"
  shows "read_header (open_ifstream (Some file)) junk_header =
           (header_of_bytes (take sizeof_header file),
            \<lparr> contents = file, pos = sizeof_header, good = True \<rparr>)"
proof -
  have "istream_read (open_ifstream (Some file)) sizeof_header =
          (take sizeof_header file, \<lparr> contents = file, pos = sizeof_header, good = True \<rparr>)"
    using assms by (subst istream_read_enough) (simp_all add: open_ifstream_def)
  moreover have "store (take sizeof_header file)
                   (le_bytes 4 get_magic_number @ map junk_header [4..<sizeof_header])
                 = take sizeof_header file"
    using assms by (intro store_whole) (simp add: length_le_bytes sizeof_header_def)
  ultimately show ?thesis by (simp add: read_header_def)
qed


lemma InvertedFingerprintFileCached_ctor_enough:
  assumes "InvertedFingerprintFileCached_ctor (Some file) junk_header junk_data = Inr c"
    and "sizeof_header + unat (words_per_fpbit (header_of_bytes (take sizeof_header file))
                               * bits_per_fingerprint (header_of_bytes (take sizeof_header file))) * 8
           \<le> length file"
  shows "m_header_cached c = header_of_bytes (take sizeof_header file)"
    and "m_data_cached c =
           take (unat (words_per_fpbit (m_header_cached c) * bits_per_fingerprint (m_header_cached c)) * 8)
             (drop sizeof_header file)"
proof -
  let ?h = "header_of_bytes (take sizeof_header file)"
  let ?n = "unat (words_per_fpbit ?h * bits_per_fingerprint ?h) * 8"
  have hd: "sizeof_header \<le> length file" using assms(2) by simp
  have rd: "istream_read \<lparr> contents = file, pos = sizeof_header, good = True \<rparr> ?n
          = (take ?n (drop sizeof_header file),
             \<lparr> contents = file, pos = sizeof_header + ?n, good = True \<rparr>)"
    using assms(2) by (subst istream_read_enough) simp_all
  have st: "store (take ?n (drop sizeof_header file)) (map junk_data [0..<?n])
          = take ?n (drop sizeof_header file)"
    using assms(2) by (intro store_whole) simp
  have "c = \<lparr> m_header_cached = ?h, m_data_cached = take ?n (drop sizeof_header file) \<rparr>"
    using assms(1) read_header_enough [OF hd] rd st
    by (simp add: InvertedFingerprintFileCached_ctor_def open_ifstream_def Let_def
          split: if_splits)
  then show "m_header_cached c = ?h"
    and "m_data_cached c =
           take (unat (words_per_fpbit (m_header_cached c) * bits_per_fingerprint (m_header_cached c)) * 8)
             (drop sizeof_header file)"
    by simp_all
qed


text \<open>\<open>unsigned int\<close> products and sums that do not wrap.\<close>

lemma unat_of_nat_mult:
  fixes w :: u32
  assumes "i * unat w < 2 ^ 32" and "i < 2 ^ 32"
  shows "unat (of_nat i * w) = i * unat w"
proof -
  have "unat (of_nat i :: u32) = i" using assms(2) by (simp add: unat_of_nat)
  then have "unat (of_nat i :: u32) * unat w < 2 ^ LENGTH(32)" using assms(1) by simp
  then have "unat (of_nat i * w) = unat (of_nat i :: u32) * unat w"
    by (simp only: unat_mult_lem)
  then show ?thesis using \<open>unat (of_nat i :: u32) = i\<close> by simp
qed

lemma unat_row_word:
  fixes w :: u32
  assumes "i < b" and "j < unat w" and "b * unat w < 2 ^ 32"
  shows "unat (of_nat i * w) = i * unat w"
    and "unat (of_nat i * w + of_nat j) = i * unat w + j"
    and "i * unat w + j < b * unat w"
proof -
  have "Suc i * unat w \<le> b * unat w" using assms(1) by (intro mult_le_mono1) simp
  then show lt: "i * unat w + j < b * unat w" using assms(2) by simp
  have "0 < unat w" using assms(2) by simp
  then have "b \<le> b * unat w" by simp
  then have i: "i < 2 ^ 32" using assms(1,3) by linarith
  have iw: "i * unat w < 2 ^ 32" using lt assms(3) by linarith
  show m: "unat (of_nat i * w) = i * unat w" using iw i by (rule unat_of_nat_mult)
  have j: "unat (of_nat j :: u32) = j" using assms(2) by (rule le_unat_uoi [OF less_imp_le])
  have "unat (of_nat i * w) + unat (of_nat j :: u32) < 2 ^ LENGTH(32)"
    using m j lt assms(3) by simp
  then have "unat (of_nat i * w + of_nat j) = unat (of_nat i * w) + unat (of_nat j :: u32)"
    by (simp only: unat_add_lem)
  then show "unat (of_nat i * w + of_nat j) = i * unat w + j" using m j by simp
qed





section \<open>Facts about the row-major reader\<close>

lemma read64_enough:
  assumes "good ifs" and "pos ifs + 8 \<le> length (contents ifs)"
  shows "read64 ifs x =
           (le_word (take 8 (drop (pos ifs) (contents ifs))),
            ifs \<lparr> pos := pos ifs + 8, good := True \<rparr>)"
proof -
  have "store (take 8 (drop (pos ifs) (contents ifs))) (le_bytes 8 x)
          = take 8 (drop (pos ifs) (contents ifs))"
    using assms(2) by (intro store_whole) (simp add: length_le_bytes)
  then show ?thesis
    using assms by (simp add: read64_def istream_read_enough)
qed

lemma read64_stream:
  "contents (snd (read64 ifs x)) = contents ifs"
  "\<not> good ifs \<Longrightarrow> snd (read64 ifs x) = ifs"
  "good ifs \<Longrightarrow> pos ifs \<le> length (contents ifs) \<Longrightarrow>
     good (snd (read64 ifs x)) \<longleftrightarrow> pos ifs + 8 \<le> length (contents ifs)"
  "good (snd (read64 ifs x)) \<Longrightarrow> pos (snd (read64 ifs x)) = pos ifs + 8"
  by (auto simp: read64_def istream_read_def Let_def min_def split: if_splits)

lemma words_from_Suc:
  "words_from bytes start (Suc n)
     = words_from bytes start n @ [le_word (take 8 (drop (start + 8 * n) bytes))]"
  by (simp add: words_from_def)

lemma length_words_from: "length (words_from bytes start n) = n"
  by (simp add: words_from_def)

text \<open>The 16 calls of \<open>read64\<close> in \<open>read_fingerprint\<close>, as \<open>n\<close> calls.\<close>

lemma read_words_enough:
  assumes "good ifs" and "pos ifs + 8 * n \<le> length (contents ifs)" and "n \<le> length fingerprint"
  shows "for_loop [0..<n] read_word (fingerprint, ifs) =
           Inr (words_from (contents ifs) (pos ifs) n @ drop n fingerprint,
                ifs \<lparr> pos := pos ifs + 8 * n, good := True \<rparr>)"
  using assms(2,3)
proof (induction n)
  case 0
  then show ?case using assms(1) by (simp add: words_from_def)
next
  case (Suc n)
  let ?ifs = "ifs \<lparr> pos := pos ifs + 8 * n, good := True \<rparr>"
  let ?fp = "words_from (contents ifs) (pos ifs) n @ drop n fingerprint"
  have before: "for_loop [0..<n] read_word (fingerprint, ifs) = Inr (?fp, ?ifs)"
    using Suc by simp
  have n: "n < length fingerprint" using Suc.prems by simp
  have rd: "read64 ?ifs (?fp ! n) =
              (le_word (take 8 (drop (pos ifs + 8 * n) (contents ifs))),
               ifs \<lparr> pos := pos ifs + 8 * Suc n, good := True \<rparr>)"
    using Suc.prems by (subst read64_enough) simp_all
  have upd: "?fp[n := le_word (take 8 (drop (pos ifs + 8 * n) (contents ifs)))]
               = words_from (contents ifs) (pos ifs) (Suc n) @ drop (Suc n) fingerprint"
    using n
    by (simp add: words_from_Suc list_update_append length_words_from
          Cons_nth_drop_Suc [symmetric])
  have "read_word n (?fp, ?ifs) =
          Inr (words_from (contents ifs) (pos ifs) (Suc n) @ drop (Suc n) fingerprint,
               ifs \<lparr> pos := pos ifs + 8 * Suc n, good := True \<rparr>)"
    using n by (simp add: read_word_def rd upd length_words_from)
  then show ?case
    using before by (simp add: for_loop_append)
qed

lemma read_words_state:
  assumes "good ifs" and "pos ifs \<le> length (contents ifs)" and "n \<le> length fingerprint"
  shows "\<exists>fp' ifs'. for_loop [0..<n] read_word (fingerprint, ifs) = Inr (fp', ifs')
           \<and> length fp' = length fingerprint
           \<and> contents ifs' = contents ifs
           \<and> (good ifs' \<longleftrightarrow> pos ifs + 8 * n \<le> length (contents ifs))
           \<and> (good ifs' \<longrightarrow> pos ifs' = pos ifs + 8 * n)"
  using assms(3)
proof (induction n)
  case 0
  then show ?case using assms(1,2) by simp
next
  case (Suc n)
  then obtain fp' ifs' where
    before: "for_loop [0..<n] read_word (fingerprint, ifs) = Inr (fp', ifs')"
    and len: "length fp' = length fingerprint"
    and cont: "contents ifs' = contents ifs"
    and good: "good ifs' \<longleftrightarrow> pos ifs + 8 * n \<le> length (contents ifs)"
    and p: "good ifs' \<longrightarrow> pos ifs' = pos ifs + 8 * n"
    by auto
  let ?x = "fst (read64 ifs' (fp' ! n))" and ?s = "snd (read64 ifs' (fp' ! n))"
  have step: "read_word n (fp', ifs') = Inr (fp'[n := ?x], ?s)"
    using Suc.prems len by (simp add: read_word_def split: prod.splits)
  have "good ?s \<longleftrightarrow> pos ifs + 8 * Suc n \<le> length (contents ifs)"
  proof (cases "good ifs'")
    case True
    then show ?thesis
      using read64_stream(3) [of ifs' "fp' ! n"] good p cont by auto
  next
    case False
    then show ?thesis using read64_stream(2) [of ifs' "fp' ! n"] good by simp
  qed
  moreover have "good ?s \<longrightarrow> pos ?s = pos ifs + 8 * Suc n"
  proof
    assume g: "good ?s"
    then have "good ifs'" using read64_stream(2) [of ifs' "fp' ! n"] by (cases "good ifs'") auto
    then show "pos ?s = pos ifs + 8 * Suc n"
      using read64_stream(4) [OF g] p by simp
  qed
  moreover have "contents ?s = contents ifs" using read64_stream(1) cont by simp
  ultimately show ?case
    using before step len by (simp add: for_loop_append)
qed

text \<open>
  With \<open>j\<close> fingerprints still to come before the count is reached and their bytes in
  the file, \<open>j\<close> calls return \<open>true\<close> and the next one \<open>false\<close>.
\<close>

lemma read_fingerprints_until_count:
  assumes "good (m_ifs ff)" and "m_numWords ff = 16" and "16 \<le> length fingerprint"
    and "pos (m_ifs ff) + 128 * j \<le> length (contents (m_ifs ff))"
    and "unat (m_numFingerprints ff - (current ff + 1)) = j"
  shows "\<exists>fingerprint' ff'.
           read_fingerprints (Suc j) ff fingerprint
             = Inr (replicate j True @ [False], fingerprint', ff')
           \<and> current ff' = m_numFingerprints ff"
  using assms
proof (induction j arbitrary: ff fingerprint)
  case 0
  then have "current ff + 1 = m_numFingerprints ff"
    by (simp add: unat_eq_0)
  then have "read_fingerprint ff fingerprint
               = Inr (False, fingerprint, ff \<lparr> m_current_fp := current ff + 1 \<rparr>)"
    using "0.prems"(1) by (simp add: read_fingerprint_def current_def)
  then show ?case
    using \<open>current ff + 1 = m_numFingerprints ff\<close> by (simp add: current_def)
next
  case (Suc j)
  let ?ff = "ff \<lparr> m_current_fp := current ff + 1,
                   m_ifs := (m_ifs ff) \<lparr> pos := pos (m_ifs ff) + 128, good := True \<rparr> \<rparr>"
  let ?fp = "words_from (contents (m_ifs ff)) (pos (m_ifs ff)) 16 @ drop 16 fingerprint"
  have ne: "m_numFingerprints ff - (current ff + 1) \<noteq> 0"
    using Suc.prems(5) by (auto simp: unat_eq_0 [symmetric])
  then have not_yet: "current ff + 1 \<noteq> m_numFingerprints ff" by auto
  have "for_loop [0..<16] read_word (fingerprint, m_ifs ff) =
           Inr (?fp, (m_ifs ff) \<lparr> pos := pos (m_ifs ff) + 8 * 16, good := True \<rparr>)"
    using Suc.prems by (intro read_words_enough) simp_all
  then have rd: "read_fingerprint ff fingerprint = Inr (True, ?fp, ?ff)"
    using Suc.prems(1,2) not_yet by (simp add: read_fingerprint_def current_def)
  define d where "d = m_numFingerprints ff - (current ff + 1)"
  have "unat (d - 1) = unat d - 1" using ne unfolding d_def by (rule unat_minus_one)
  then have "unat (d - 1) = j" using Suc.prems(5) by (simp add: d_def)
  moreover have "m_numFingerprints ?ff - (current ?ff + 1) = d - 1"
    by (simp add: d_def current_def)
  ultimately have left: "unat (m_numFingerprints ?ff - (current ?ff + 1)) = j"
    by (simp only:)
  have "\<exists>fingerprint' ff'.
           read_fingerprints (Suc j) ?ff ?fp = Inr (replicate j True @ [False], fingerprint', ff')
           \<and> current ff' = m_numFingerprints ?ff"
    using Suc.prems(2,3,4) left
    by (intro Suc.IH) (simp_all add: length_words_from)
  then obtain fingerprint' ff' where
    "read_fingerprints (Suc j) ?ff ?fp = Inr (replicate j True @ [False], fingerprint', ff')"
    and "current ff' = m_numFingerprints ff"
    by auto
  then show ?case
    using rd by (subst read_fingerprints.simps) simp
qed

lemma read32_enough:
  assumes "good ifs" and "pos ifs + 4 \<le> length (contents ifs)"
  shows "read32 ifs x =
           (le_word (take 4 (drop (pos ifs) (contents ifs))),
            ifs \<lparr> pos := pos ifs + 4, good := True \<rparr>)"
proof -
  have "store (take 4 (drop (pos ifs) (contents ifs))) (le_bytes 4 x)
          = take 4 (drop (pos ifs) (contents ifs))"
    using assms(2) by (intro store_whole) (simp add: length_le_bytes)
  then show ?thesis
    using assms by (simp add: read32_def istream_read_enough)
qed



lemma example_fingerprint_reader_opened:
  "FingerprintFile_ctor (Some example_fingerprint_file) 7 = example_fingerprint_reader"
  by code_simp

lemma example_fingerprint_file_length: "length example_fingerprint_file = 134"
  by code_simp

lemma example_fingerprint_words:
  "words_from example_fingerprint_file 4 16 @ drop 16 (replicate 16 0) = map of_nat [1..<17]"
  by code_simp


text \<open>
  The count is compared with \<open>==\<close>: a caller that goes on after the \<open>false\<close> at the
  count (\<open>current\<close> is then \<open>num_fingerprints\<close>) gets the 128 bytes that follow as
  one more fingerprint, and \<open>true\<close>.
\<close>

lemma read_fingerprint_after_count:
  assumes "good (m_ifs ff)" and "current ff = m_numFingerprints ff" and "m_numWords ff = 16"
    and "16 \<le> length fingerprint"
    and "pos (m_ifs ff) + 128 \<le> length (contents (m_ifs ff))"
  shows "read_fingerprint ff fingerprint
           = Inr (True,
                  words_from (contents (m_ifs ff)) (pos (m_ifs ff)) 16 @ drop 16 fingerprint,
                  ff \<lparr> m_current_fp := current ff + 1,
                       m_ifs := (m_ifs ff) \<lparr> pos := pos (m_ifs ff) + 128, good := True \<rparr> \<rparr>)"
proof -
  have "for_loop [0..<16] read_word (fingerprint, m_ifs ff) =
           Inr (words_from (contents (m_ifs ff)) (pos (m_ifs ff)) 16 @ drop 16 fingerprint,
                (m_ifs ff) \<lparr> pos := pos (m_ifs ff) + 8 * 16, good := True \<rparr>)"
    using assms by (intro read_words_enough) simp_all
  then show ?thesis
    using assms(1,2,3) by (simp add: read_fingerprint_def current_def)
qed

text \<open>
  The same on a file with count 1 and 256 bytes after it: the first call yields the words
  1 to 16, the second returns \<open>false\<close> at the count, the third yields the words 17 to 32.
\<close>

lemma example_fingerprint_reader_long_opened:
  "FingerprintFile_ctor (Some example_fingerprint_file_long) 7
     = example_fingerprint_reader_long 4 (- 1)"
  by code_simp

lemma example_fingerprint_file_long_length: "length example_fingerprint_file_long = 260"
  by code_simp

lemma example_fingerprint_words_long:
  "words_from example_fingerprint_file_long 4 16 @ drop 16 (replicate 16 0) = map of_nat [1..<17]"
  "words_from example_fingerprint_file_long 132 16 @ drop 16 (map of_nat [1..<17])
     = map of_nat [17..<33]"
  by code_simp+

lemma read_fingerprint_not_at_count:
  assumes "good (m_ifs ff)" and "current ff + 1 \<noteq> m_numFingerprints ff" and "m_numWords ff = 16"
    and "16 \<le> length fingerprint"
    and "pos (m_ifs ff) + 128 \<le> length (contents (m_ifs ff))"
  shows "read_fingerprint ff fingerprint
           = Inr (True,
                  words_from (contents (m_ifs ff)) (pos (m_ifs ff)) 16 @ drop 16 fingerprint,
                  ff \<lparr> m_current_fp := current ff + 1,
                       m_ifs := (m_ifs ff) \<lparr> pos := pos (m_ifs ff) + 128, good := True \<rparr> \<rparr>)"
proof -
  have "for_loop [0..<16] read_word (fingerprint, m_ifs ff) =
           Inr (words_from (contents (m_ifs ff)) (pos (m_ifs ff)) 16 @ drop 16 fingerprint,
                (m_ifs ff) \<lparr> pos := pos (m_ifs ff) + 8 * 16, good := True \<rparr>)"
    using assms by (intro read_words_enough) simp_all
  then show ?thesis
    using assms(1,2,3) by (simp add: read_fingerprint_def current_def)
qed

lemma example_long_first:
  "read_fingerprint (example_fingerprint_reader_long 4 (- 1)) (replicate 16 0)
     = Inr (True, map of_nat [1..<17], example_fingerprint_reader_long 132 0)"
  using read_fingerprint_not_at_count [of "example_fingerprint_reader_long 4 (- 1)" "replicate 16 0"]
    example_fingerprint_words_long(1)
  by (simp add: example_fingerprint_reader_long_def current_def
        example_fingerprint_file_long_length)

lemma example_long_second:
  "read_fingerprint (example_fingerprint_reader_long 132 0) (map of_nat [1..<17])
     = Inr (False, map of_nat [1..<17], example_fingerprint_reader_long 132 1)"
  by (simp add: read_fingerprint_def example_fingerprint_reader_long_def)

lemma example_long_third:
  "read_fingerprint (example_fingerprint_reader_long 132 1) (map of_nat [1..<17])
     = Inr (True, map of_nat [17..<33], example_fingerprint_reader_long 260 2)"
  using read_fingerprint_after_count [of "example_fingerprint_reader_long 132 1" "map of_nat [1..<17]"]
    example_fingerprint_words_long(2)
  by (simp add: example_fingerprint_reader_long_def current_def
        example_fingerprint_file_long_length)

section \<open>The row width the writer computes\<close>

text \<open>
  \<open>(N + N % 64) / 64\<close> against the ceiling of \<open>N / 64\<close>: they agree exactly when
  \<open>N % 64\<close> is 0 or at least 32.
\<close>

lemma ceil_formula:
  "((n::nat) + n mod 64) div 64 = (n + 63) div 64 \<longleftrightarrow> n mod 64 = 0 \<or> 32 \<le> n mod 64"
proof -
  define q r where "q = n div 64" and "r = n mod 64"
  have n: "n = q * 64 + r" and r: "r < 64" by (simp_all add: q_def r_def)
  have a: "(n + r) div 64 = q + (r + r) div 64"
    unfolding n by (simp add: add.assoc)
  have b: "(n + 63) div 64 = q + (r + 63) div 64"
    unfolding n by (simp add: add.assoc)
  have c: "(r + r) div 64 = (if 32 \<le> r then 1 else 0)"
    using r by (auto simp: div_eq_dividend_iff intro!: div_nat_eqI)
  have d: "(r + 63) div 64 = (if r = 0 then 0 else 1)"
    using r by (auto intro!: div_nat_eqI)
  show ?thesis
    using a b c d by (auto simp: r_def [symmetric])
qed

lemma words_per_fpbit_is_ceiling_iff:
  assumes "unat N + 63 < 2 ^ 32"
  shows "unat (words_per_fpbit (setup_header B N)) = (unat N + 63) div 64
           \<longleftrightarrow> unat N mod 64 = 0 \<or> 32 \<le> unat N mod 64"
proof -
  have m: "unat (N mod 64) = unat N mod 64" by (simp add: unat_mod)
  have "unat N mod 64 < 64" by simp
  then have "unat N + unat (N mod 64) < 2 ^ LENGTH(32)" using assms m by simp
  then have "unat (N + N mod 64) = unat N + unat (N mod 64)" by (simp only: unat_add_lem)
  then have "unat (words_per_fpbit (setup_header B N)) = (unat N + unat N mod 64) div 64"
    by (simp add: setup_header_def unat_div m)
  then show ?thesis by (simp only: ceil_formula)
qed

section \<open>The search on a matrix whose rows are wide enough\<close>

text \<open>Little-endian bytes, read back.\<close>

lemma bit_le_word:
  "bit (le_word bs :: 'a::len word) k
     \<longleftrightarrow> k < LENGTH('a) \<and> k div 8 < length bs \<and> bit (bs ! (k div 8)) (k mod 8)"
proof (induction bs arbitrary: k)
  case Nil
  then show ?case by simp
next
  case (Cons b bs)
  show ?case
  proof (cases "k < 8")
    case True
    then show ?thesis
      by (auto simp: bit_or_iff bit_ucast_iff bit_push_bit_iff dest: bit_imp_le_length)
  next
    case False
    then have k: "8 \<le> k" by simp
    have d: "k div 8 = Suc ((k - 8) div 8)" and m: "k mod 8 = (k - 8) mod 8"
      using k by (simp_all add: le_div_geq le_mod_geq)
    have "\<not> bit b k" using False by (auto dest: bit_imp_le_length)
    then show ?thesis
      using k Cons.IH [of "k - 8"]
      by (auto simp: bit_or_iff bit_ucast_iff bit_push_bit_iff d m dest: bit_imp_le_length)
  qed
qed

lemma le_word_le_bytes:
  assumes "LENGTH('a::len) \<le> 8 * n"
  shows "le_word (le_bytes n (w :: 'a word)) = w"
proof (rule bit_word_eqI)
  fix k
  assume k: "k < LENGTH('a)"
  then have "k div 8 < n" using assms by (simp add: less_mult_imp_div_less mult.commute)
  then show "bit (le_word (le_bytes n w) :: 'a word) k \<longleftrightarrow> bit w k"
    using k by (simp add: bit_le_word le_bytes_def bit_ucast_iff bit_drop_bit_eq)
qed

lemma length_concat_le_bytes: "length (concat (map (le_bytes n) ws)) = n * length ws"
  by (induction ws) (simp_all add: length_le_bytes)

lemma chunk_of_concat_le_bytes:
  assumes "k < length ws"
  shows "take n (drop (n * k) (concat (map (le_bytes n) ws))) = le_bytes n (ws ! k)"
  using assms
proof (induction ws arbitrary: k)
  case Nil
  then show ?case by simp
next
  case (Cons w ws)
  show ?case
  proof (cases k)
    case 0
    then show ?thesis by (simp add: length_le_bytes)
  next
    case (Suc k')
    then have "take n (drop (n * k') (concat (map (le_bytes n) ws))) = le_bytes n (ws ! k')"
      using Cons.prems by (intro Cons.IH) simp
    then show ?thesis using Suc by (simp add: length_le_bytes)
  qed
qed

text \<open>An array written as bytes and viewed as words again.\<close>

lemma word_at_concat_le_bytes:
  assumes "k < length ws"
  shows "word_at (concat (map (le_bytes 8) ws)) k = Inr (ws ! k)"
proof -
  have "8 * k + 8 \<le> 8 * length ws" using assms by simp
  then show ?thesis
    using chunk_of_concat_le_bytes [OF assms, of 8]
    by (simp add: word_at_def length_concat_le_bytes le_word_le_bytes)
qed

lemma length_bytes_of_header: "length (bytes_of_header h) = sizeof_header"
  by (simp add: bytes_of_header_def length_le_bytes sizeof_header_def)

lemma header_of_bytes_of_header:
  "header_of_bytes (bytes_of_header (h :: InvertedFingerprintFileHeader) @ rest) = h"
  by (simp add: header_of_bytes_def bytes_of_header_def length_le_bytes le_word_le_bytes)

text \<open>
  What one \<open>write\<close> does to the bits of the matrix, when every position it may set is
  inside: the positions of the fingerprint's set bits are set, the others keep their value.
\<close>

lemma write_bits_loop:
  assumes "\<forall>i < n. i div 64 < length fingerprint"
    and "\<forall>i < n. unat (of_nat i * words_per_fpbit (m_header w) * 64 + m_current w) div 64
                    < length data"
  shows "\<exists>data'. for_loop [0..<n] (write_bit w fingerprint) data = Inr data'
           \<and> length data' = length data
           \<and> (\<forall>k. get_bitvec k data' =
                  (if \<exists>i < n. get_bitvec i fingerprint = Inr True
                        \<and> k = unat (of_nat i * words_per_fpbit (m_header w) * 64 + m_current w)
                   then Inr True else get_bitvec k data))"
  using assms
proof (induction n)
  case 0
  then show ?case by simp
next
  case (Suc n)
  let ?idx = "\<lambda>i. unat (of_nat i * words_per_fpbit (m_header w) * 64 + m_current w)"
  from Suc obtain d where
    before: "for_loop [0..<n] (write_bit w fingerprint) data = Inr d"
    and len: "length d = length data"
    and bits: "\<forall>k. get_bitvec k d =
                 (if \<exists>i < n. get_bitvec i fingerprint = Inr True \<and> k = ?idx i
                  then Inr True else get_bitvec k data)"
    by auto
  obtain b where b: "get_bitvec n fingerprint = Inr b"
    using Suc.prems(1) by (auto simp: get_bitvec_def BitsPerWord_def)
  show ?case
  proof (cases b)
    case False
    then have "write_bit w fingerprint n d = Inr d" using b by (simp add: write_bit_def)
    moreover have "\<And>k. (\<exists>i < Suc n. get_bitvec i fingerprint = Inr True \<and> k = ?idx i)
                     \<longleftrightarrow> (\<exists>i < n. get_bitvec i fingerprint = Inr True \<and> k = ?idx i)"
      using b False by (auto simp: less_Suc_eq)
    ultimately show ?thesis
      using before len bits by (simp add: for_loop_append)
  next
    case True
    have "?idx n div 64 < length d" using Suc.prems(2) len by simp
    then obtain d' where set: "set_bitvec (?idx n) d = Inr d'" and len': "length d' = length d"
      by (auto simp: set_bitvec_def BitsPerWord_def)
    have step: "write_bit w fingerprint n d = Inr d'"
      using b True set by (simp add: write_bit_def)
    have "\<And>k. get_bitvec k d' =
             (if \<exists>i < Suc n. get_bitvec i fingerprint = Inr True \<and> k = ?idx i
              then Inr True else get_bitvec k data)"
      using get_set_bitvec [OF set] bits b True by (auto simp: less_Suc_eq)
    then show ?thesis
      using before step len len' by (simp add: for_loop_append)
  qed
qed

lemma write_fingerprint_bits:
  assumes "\<forall>i < unat (bits_per_fingerprint (m_header w)). i div 64 < length fingerprint"
    and "\<forall>i < unat (bits_per_fingerprint (m_header w)).
           unat (of_nat i * words_per_fpbit (m_header w) * 64 + m_current w) div 64
             < length (m_data w)"
  shows "\<exists>data'. write_fingerprint w fingerprint
                   = Inr (w \<lparr> m_data := data', m_current := m_current w + 1 \<rparr>)
           \<and> length data' = length (m_data w)
           \<and> (\<forall>k. get_bitvec k data' =
                  (if \<exists>i < unat (bits_per_fingerprint (m_header w)).
                        get_bitvec i fingerprint = Inr True
                        \<and> k = unat (of_nat i * words_per_fpbit (m_header w) * 64 + m_current w)
                   then Inr True else get_bitvec k (m_data w)))"
proof -
  from write_bits_loop [OF assms] obtain data' where
    "for_loop [0..<unat (bits_per_fingerprint (m_header w))] (write_bit w fingerprint) (m_data w)
       = Inr data'"
    and "length data' = length (m_data w)"
    and "\<forall>k. get_bitvec k data' =
                  (if \<exists>i < unat (bits_per_fingerprint (m_header w)).
                        get_bitvec i fingerprint = Inr True
                        \<and> k = unat (of_nat i * words_per_fpbit (m_header w) * 64 + m_current w)
                   then Inr True else get_bitvec k (m_data w))"
    by blast
  then show ?thesis
    unfolding write_fingerprint_def by (intro exI [of _ data']) simp
qed

text \<open>The same for a run of fingerprints: fingerprint \<open>j\<close> is written at \<open>m_current + j\<close>.\<close>

lemma write_all_bits:
  assumes "\<forall>fingerprint \<in> set fingerprints.
             \<forall>i < unat (bits_per_fingerprint (m_header w)). i div 64 < length fingerprint"
    and "\<forall>j < length fingerprints. \<forall>i < unat (bits_per_fingerprint (m_header w)).
           unat (of_nat i * words_per_fpbit (m_header w) * 64 + (m_current w + of_nat j)) div 64
             < length (m_data w)"
  shows "\<exists>data'. write_all w fingerprints
                   = Inr (w \<lparr> m_data := data',
                              m_current := m_current w + of_nat (length fingerprints) \<rparr>)
           \<and> length data' = length (m_data w)
           \<and> (\<forall>k. get_bitvec k data' =
                  (if \<exists>j < length fingerprints. \<exists>i < unat (bits_per_fingerprint (m_header w)).
                        get_bitvec i (fingerprints ! j) = Inr True
                        \<and> k = unat (of_nat i * words_per_fpbit (m_header w) * 64
                                      + (m_current w + of_nat j))
                   then Inr True else get_bitvec k (m_data w)))"
  using assms
proof (induction fingerprints arbitrary: w)
  case Nil
  show ?case by (intro exI [of _ "m_data w"]) (simp add: write_all_def)
next
  case (Cons fingerprint fingerprints)
  let ?B = "unat (bits_per_fingerprint (m_header w))"
  let ?at = "\<lambda>i c. unat (of_nat i * words_per_fpbit (m_header w) * 64 + c)"
  have "\<forall>i < ?B. i div 64 < length fingerprint" using Cons.prems(1) by simp
  moreover have "\<forall>i < ?B. ?at i (m_current w) div 64 < length (m_data w)"
    using Cons.prems(2) by fastforce
  ultimately obtain d1 where
    first: "write_fingerprint w fingerprint
              = Inr (w \<lparr> m_data := d1, m_current := m_current w + 1 \<rparr>)"
    and len1: "length d1 = length (m_data w)"
    and bits1: "\<forall>k. get_bitvec k d1 =
                  (if \<exists>i < ?B. get_bitvec i fingerprint = Inr True \<and> k = ?at i (m_current w)
                   then Inr True else get_bitvec k (m_data w))"
    using write_fingerprint_bits [of w fingerprint] by blast
  let ?w1 = "w \<lparr> m_data := d1, m_current := m_current w + 1 \<rparr>"
  have shift: "\<And>j. m_current w + 1 + of_nat j = m_current w + of_nat (Suc j)"
    by simp
  have "\<forall>fp \<in> set fingerprints. \<forall>i < unat (bits_per_fingerprint (m_header ?w1)).
          i div 64 < length fp"
    using Cons.prems(1) by simp
  moreover have "\<forall>j < length fingerprints. \<forall>i < unat (bits_per_fingerprint (m_header ?w1)).
           unat (of_nat i * words_per_fpbit (m_header ?w1) * 64 + (m_current ?w1 + of_nat j)) div 64
             < length (m_data ?w1)"
  proof (intro allI impI)
    fix j i
    assume "j < length fingerprints" and "i < unat (bits_per_fingerprint (m_header ?w1))"
    then have "?at i (m_current w + of_nat (Suc j)) div 64 < length (m_data w)"
      using Cons.prems(2) by (auto simp del: of_nat_Suc)
    then show "unat (of_nat i * words_per_fpbit (m_header ?w1) * 64 + (m_current ?w1 + of_nat j))
                 div 64 < length (m_data ?w1)"
      using len1 by (simp add: ac_simps)
  qed
  ultimately obtain d2 where
    rest: "write_all ?w1 fingerprints
             = Inr (?w1 \<lparr> m_data := d2,
                           m_current := m_current ?w1 + of_nat (length fingerprints) \<rparr>)"
    and len2: "length d2 = length (m_data ?w1)"
    and bits2: "\<forall>k. get_bitvec k d2 =
                  (if \<exists>j < length fingerprints. \<exists>i < unat (bits_per_fingerprint (m_header ?w1)).
                        get_bitvec i (fingerprints ! j) = Inr True
                        \<and> k = unat (of_nat i * words_per_fpbit (m_header ?w1) * 64
                                      + (m_current ?w1 + of_nat j))
                   then Inr True else get_bitvec k (m_data ?w1))"
    using Cons.IH [of ?w1] by blast
  have all: "write_all w (fingerprint # fingerprints)
               = Inr (w \<lparr> m_data := d2,
                          m_current := m_current w + of_nat (length (fingerprint # fingerprints)) \<rparr>)"
    using first rest by (simp add: write_all_def ac_simps)
  have bits: "\<And>k. get_bitvec k d2 =
                  (if \<exists>j < length (fingerprint # fingerprints). \<exists>i < ?B.
                        get_bitvec i ((fingerprint # fingerprints) ! j) = Inr True
                        \<and> k = ?at i (m_current w + of_nat j)
                   then Inr True else get_bitvec k (m_data w))"
  proof -
    fix k
    let ?here = "\<exists>i < ?B. get_bitvec i fingerprint = Inr True \<and> k = ?at i (m_current w)"
    let ?later = "\<exists>j < length fingerprints. \<exists>i < ?B.
                    get_bitvec i (fingerprints ! j) = Inr True
                    \<and> k = ?at i (m_current w + of_nat (Suc j))"
    have split: "(\<exists>j < length (fingerprint # fingerprints). \<exists>i < ?B.
                    get_bitvec i ((fingerprint # fingerprints) ! j) = Inr True
                    \<and> k = ?at i (m_current w + of_nat j)) \<longleftrightarrow> ?here \<or> ?later"
    proof
      assume "\<exists>j < length (fingerprint # fingerprints). \<exists>i < ?B.
                get_bitvec i ((fingerprint # fingerprints) ! j) = Inr True
                \<and> k = ?at i (m_current w + of_nat j)"
      then obtain j i where j: "j < length (fingerprint # fingerprints)" and i: "i < ?B"
        and g: "get_bitvec i ((fingerprint # fingerprints) ! j) = Inr True"
        and k: "k = ?at i (m_current w + of_nat j)"
        by blast
      show "?here \<or> ?later"
      proof (cases j)
        case 0
        then have ?here using i g k by auto
        then show ?thesis ..
      next
        case (Suc j')
        then have ?later using j i g k by (auto simp del: of_nat_Suc)
        then show ?thesis ..
      qed
    next
      assume "?here \<or> ?later"
      then show "\<exists>j < length (fingerprint # fingerprints). \<exists>i < ?B.
                get_bitvec i ((fingerprint # fingerprints) ! j) = Inr True
                \<and> k = ?at i (m_current w + of_nat j)"
      proof
        assume ?here
        then obtain i where "i < ?B" "get_bitvec i fingerprint = Inr True"
          "k = ?at i (m_current w)" by blast
        then show ?thesis by (intro exI [of _ 0]) auto
      next
        assume ?later
        then obtain j i where "j < length fingerprints" "i < ?B"
          "get_bitvec i (fingerprints ! j) = Inr True"
          "k = ?at i (m_current w + of_nat (Suc j))" by blast
        then show ?thesis by (intro exI [of _ "Suc j"]) (auto simp del: of_nat_Suc)
      qed
    qed
    have same: "(\<exists>j < length fingerprints. \<exists>i < unat (bits_per_fingerprint (m_header ?w1)).
                    get_bitvec i (fingerprints ! j) = Inr True
                    \<and> k = unat (of_nat i * words_per_fpbit (m_header ?w1) * 64
                                  + (m_current ?w1 + of_nat j))) \<longleftrightarrow> ?later"
      by (simp add: ac_simps)
    have "get_bitvec k d2 =
            (if \<exists>j < length fingerprints. \<exists>i < unat (bits_per_fingerprint (m_header ?w1)).
                    get_bitvec i (fingerprints ! j) = Inr True
                    \<and> k = unat (of_nat i * words_per_fpbit (m_header ?w1) * 64
                                  + (m_current ?w1 + of_nat j))
             then Inr True else get_bitvec k (m_data ?w1))"
      using bits2 by blast
    moreover have "m_data ?w1 = d1" by simp
    ultimately have "get_bitvec k d2 = (if ?later then Inr True else get_bitvec k d1)"
      by (simp only: same)
    also have "\<dots> = (if ?here \<or> ?later then Inr True else get_bitvec k (m_data w))"
      using bits1 by auto
    finally show "get_bitvec k d2 =
                  (if \<exists>j < length (fingerprint # fingerprints). \<exists>i < ?B.
                        get_bitvec i ((fingerprint # fingerprints) ! j) = Inr True
                        \<and> k = ?at i (m_current w + of_nat j)
                   then Inr True else get_bitvec k (m_data w))"
      by (simp only: split)
  qed
  show ?case
    using all len1 len2 bits by (intro exI [of _ d2]) simp
qed

lemma row_position_unique:
  fixes c :: nat
  assumes "a * c + b = a' * c + b'" and "b < c" and "b' < c"
  shows "a = a' \<and> b = b'"
proof -
  have "(a * c + b) div c = a" "(a' * c + b') div c = a'" using assms(2,3) by simp_all
  then have "a = a'" using assms(1) by simp
  then show ?thesis using assms(1) by simp
qed

text \<open>The writer's bit index \<open>i * words_per_fpbit * 64 + m\<close> when nothing wraps.\<close>

lemma unat_matrix_index:
  fixes wpf :: u32
  assumes "i < b" and "m < 64 * unat wpf" and "b * unat wpf * 64 < 2 ^ 32"
  shows "unat (of_nat i * wpf * 64 + of_nat m) = i * unat wpf * 64 + m"
    and "i * unat wpf * 64 + m < b * unat wpf * 64"
proof -
  have "unat wpf \<le> b * unat wpf" using assms(1) by (cases b) simp_all
  then have "unat wpf * 64 \<le> b * unat wpf * 64" by (rule mult_le_mono1)
  then have "unat wpf * 64 < 2 ^ 32" using assms(3) by (rule le_less_trans)
  then have "unat wpf * unat (64 :: u32) < 2 ^ LENGTH(32)" by simp
  then have w64: "unat (wpf * 64) = unat wpf * 64"
    by (simp only: unat_mult_lem) simp
  have m: "m < unat (wpf * 64)" using assms(2) w64 by simp
  have fits: "b * unat (wpf * 64) < 2 ^ 32" using assms(3) w64 by (simp add: mult.assoc)
  note u = unat_row_word [OF assms(1) m fits]
  have "of_nat i * wpf * 64 = of_nat i * (wpf * 64)" by (simp add: mult.assoc)
  then show "unat (of_nat i * wpf * 64 + of_nat m) = i * unat wpf * 64 + m"
    using u(2) w64 by (simp add: mult.assoc)
  show "i * unat wpf * 64 + m < b * unat wpf * 64"
    using u(3) w64 by (simp add: mult.assoc)
qed

lemma get_bitvec_zeros: "k < 64 * n \<Longrightarrow> get_bitvec k (replicate n 0) = Inr False"
  by (simp add: get_bitvec_def BitsPerWord_def less_mult_imp_div_less mult.commute)

text \<open>
  The matrix after the writer has taken the fingerprints, started over cleared memory,
  when a row is wide enough for them and the bit indices do not wrap: bit \<open>m\<close> of row
  \<open>i\<close> is bit \<open>i\<close> of fingerprint \<open>m\<close>.
\<close>

lemma written_matrix_is_transposed:
  fixes w :: InvertedFingerprintOutputFile
  assumes start: "m_current w = 0"
      "m_data w = replicate (unat (words_per_fpbit (m_header w))
                             * unat (bits_per_fingerprint (m_header w))) 0"
    and nowrap: "unat (bits_per_fingerprint (m_header w)) * unat (words_per_fpbit (m_header w)) * 64
                   < 2 ^ 32"
    and count: "length fingerprints \<le> 64 * unat (words_per_fpbit (m_header w))"
    and readable: "\<forall>fingerprint \<in> set fingerprints.
             \<forall>i < unat (bits_per_fingerprint (m_header w)). i div 64 < length fingerprint"
  shows "\<exists>data. write_all w fingerprints
                  = Inr (w \<lparr> m_data := data, m_current := of_nat (length fingerprints) \<rparr>)
           \<and> length data = unat (words_per_fpbit (m_header w))
                            * unat (bits_per_fingerprint (m_header w))
           \<and> (\<forall>i < unat (bits_per_fingerprint (m_header w)).
                \<forall>m < 64 * unat (words_per_fpbit (m_header w)).
                  get_bitvec (i * unat (words_per_fpbit (m_header w)) * 64 + m) data
                    = Inr (m < length fingerprints
                           \<and> get_bitvec i (fingerprints ! m) = Inr True))"
proof -
  let ?W = "unat (words_per_fpbit (m_header w))" and ?B = "unat (bits_per_fingerprint (m_header w))"
  let ?wpf = "words_per_fpbit (m_header w)"
  have idx: "\<And>i j. i < ?B \<Longrightarrow> j < 64 * ?W \<Longrightarrow>
               unat (of_nat i * ?wpf * 64 + (m_current w + of_nat j)) = i * ?W * 64 + j"
    using unat_matrix_index(1) [OF _ _ nowrap] by (simp add: start(1))
  have inside: "\<And>i j. i < ?B \<Longrightarrow> j < 64 * ?W \<Longrightarrow> (i * ?W * 64 + j) div 64 < ?W * ?B"
  proof -
    fix i j
    assume "i < ?B" and "j < 64 * ?W"
    then have "i * ?W * 64 + j < ?B * ?W * 64" by (rule unat_matrix_index(2) [OF _ _ nowrap])
    then show "(i * ?W * 64 + j) div 64 < ?W * ?B"
      by (simp add: less_mult_imp_div_less mult.commute)
  qed
  have "\<forall>j < length fingerprints. \<forall>i < ?B.
           unat (of_nat i * ?wpf * 64 + (m_current w + of_nat j)) div 64 < length (m_data w)"
    using idx inside count by (simp add: start(2))
  from write_all_bits [OF readable this] obtain data where
    all: "write_all w fingerprints
            = Inr (w \<lparr> m_data := data, m_current := m_current w + of_nat (length fingerprints) \<rparr>)"
    and len: "length data = length (m_data w)"
    and bits: "\<forall>k. get_bitvec k data =
                  (if \<exists>j < length fingerprints. \<exists>i < ?B.
                        get_bitvec i (fingerprints ! j) = Inr True
                        \<and> k = unat (of_nat i * ?wpf * 64 + (m_current w + of_nat j))
                   then Inr True else get_bitvec k (m_data w))"
    by blast
  have "\<forall>i < ?B. \<forall>m < 64 * ?W.
          get_bitvec (i * ?W * 64 + m) data
            = Inr (m < length fingerprints \<and> get_bitvec i (fingerprints ! m) = Inr True)"
  proof (intro allI impI)
    fix i m
    assume i: "i < ?B" and m: "m < 64 * ?W"
    have "(\<exists>j < length fingerprints. \<exists>i' < ?B.
             get_bitvec i' (fingerprints ! j) = Inr True
             \<and> i * ?W * 64 + m = unat (of_nat i' * ?wpf * 64 + (m_current w + of_nat j)))
          \<longleftrightarrow> m < length fingerprints \<and> get_bitvec i (fingerprints ! m) = Inr True"
    proof
      assume "\<exists>j < length fingerprints. \<exists>i' < ?B.
             get_bitvec i' (fingerprints ! j) = Inr True
             \<and> i * ?W * 64 + m = unat (of_nat i' * ?wpf * 64 + (m_current w + of_nat j))"
      then obtain j i' where j: "j < length fingerprints" and i': "i' < ?B"
        and g: "get_bitvec i' (fingerprints ! j) = Inr True"
        and e: "i * ?W * 64 + m = unat (of_nat i' * ?wpf * 64 + (m_current w + of_nat j))"
        by blast
      have j64: "j < 64 * ?W" using j count by simp
      then have "i * (?W * 64) + m = i' * (?W * 64) + j"
        using e idx [OF i' j64] by (simp add: mult.assoc)
      then have "i = i' \<and> m = j"
        using m j64 by (intro row_position_unique [of i "?W * 64" m i' j]) simp_all
      then show "m < length fingerprints \<and> get_bitvec i (fingerprints ! m) = Inr True"
        using j g by simp
    next
      assume "m < length fingerprints \<and> get_bitvec i (fingerprints ! m) = Inr True"
      then show "\<exists>j < length fingerprints. \<exists>i' < ?B.
             get_bitvec i' (fingerprints ! j) = Inr True
             \<and> i * ?W * 64 + m = unat (of_nat i' * ?wpf * 64 + (m_current w + of_nat j))"
        using i m idx [OF i m] by (intro exI [of _ m]) auto
    qed
    moreover have "get_bitvec (i * ?W * 64 + m) (m_data w) = Inr False"
    proof -
      have "i * ?W * 64 + m < ?B * ?W * 64" using i m by (rule unat_matrix_index(2) [OF _ _ nowrap])
      then show ?thesis by (simp add: start(2) get_bitvec_zeros mult.commute mult.left_commute)
    qed
    ultimately show "get_bitvec (i * ?W * 64 + m) data
            = Inr (m < length fingerprints \<and> get_bitvec i (fingerprints ! m) = Inr True)"
      using bits by auto
  qed
  then show ?thesis
    using all len by (intro exI [of _ data]) (simp add: start)
qed

text \<open>The two inner loops of \<open>search\<close>, in closed form.\<close>

lemma assign_row_result:
  assumes "\<forall>j < n. row j = Inr (f j)" and "n \<le> length result"
  shows "assign_row row n result = Inr (map f [0..<n] @ drop n result)"
  using assms unfolding assign_row_def
proof (induction n)
  case 0
  then show ?case by simp
next
  case (Suc n)
  then have n: "n < length result" by simp
  have "(map f [0..<n] @ drop n result)[n := f n] = map f [0..<Suc n] @ drop (Suc n) result"
    using n by (simp add: list_update_append Cons_nth_drop_Suc [symmetric])
  then show ?case
    using Suc n by (simp add: for_loop_append)
qed

lemma intersect_row_result:
  assumes "\<forall>j < n. row j = Inr (f j)" and "n \<le> length result"
  shows "intersect_row row n result
           = Inr (map (\<lambda>j. (result ! j) AND f j) [0..<n] @ drop n result)"
  using assms unfolding intersect_row_def
proof (induction n)
  case 0
  then show ?case by simp
next
  case (Suc n)
  then have n: "n < length result" by simp
  let ?r = "map (\<lambda>j. (result ! j) AND f j) [0..<n] @ drop n result"
  have "?r ! n = result ! n" using n by (simp add: nth_append)
  moreover have "?r[n := (result ! n) AND f n]
                   = map (\<lambda>j. (result ! j) AND f j) [0..<Suc n] @ drop (Suc n) result"
    using n by (simp add: list_update_append Cons_nth_drop_Suc [symmetric])
  ultimately show ?case
    using Suc n by (simp add: for_loop_append)
qed

text \<open>
  The cached reader's outer loop after the first \<open>n\<close> bits of the query, over a matrix
  whose word \<open>j\<close> of row \<open>i\<close> is \<open>cell i j\<close>: until a set bit is met the buffer is
  untouched; from then on its first \<open>words_per_fpbit\<close> words are the intersection of the
  rows of the set bits.
\<close>

lemma search_cached_loop:
  assumes rows: "\<forall>i < n. \<forall>j < unat (words_per_fpbit (m_header_cached c)).
                   word_at (m_data_cached c)
                     (unat ((of_nat i :: u32) * words_per_fpbit (m_header_cached c) + of_nat j))
                   = Inr (cell i j)"
    and readable: "\<forall>i < n. i div 64 < length fingerprint"
    and len: "unat (words_per_fpbit (m_header_cached c)) \<le> length result"
  shows "\<exists>first result'.
           for_loop [0..<n] (search_cached_bit c fingerprint) (True, result) = Inr (first, result')
           \<and> (first \<longleftrightarrow> (\<forall>i < n. get_bitvec i fingerprint \<noteq> Inr True))
           \<and> (first \<longrightarrow> result' = result)
           \<and> length result' = length result
           \<and> (\<not> first \<longrightarrow>
                (\<forall>j < unat (words_per_fpbit (m_header_cached c)). \<forall>b.
                   bit (result' ! j) b \<longleftrightarrow>
                     (\<forall>i < n. get_bitvec i fingerprint = Inr True \<longrightarrow> bit (cell i j) b)))"
  using rows readable
proof (induction n)
  case 0
  show ?case by (intro exI [of _ True] exI [of _ result]) simp
next
  case (Suc n)
  let ?W = "unat (words_per_fpbit (m_header_cached c))"
  let ?q = "\<lambda>i. get_bitvec i fingerprint = Inr True"
  from Suc obtain first r where
    before: "for_loop [0..<n] (search_cached_bit c fingerprint) (True, result) = Inr (first, r)"
    and first: "first \<longleftrightarrow> (\<forall>i < n. \<not> ?q i)"
    and same: "first \<longrightarrow> r = result"
    and lr: "length r = length result"
    and inter: "\<not> first \<longrightarrow>
                  (\<forall>j < ?W. \<forall>b. bit (r ! j) b \<longleftrightarrow> (\<forall>i < n. ?q i \<longrightarrow> bit (cell i j) b))"
    by (auto simp: less_Suc_eq)
  obtain b where b: "get_bitvec n fingerprint = Inr b"
    using Suc.prems(2) by (auto simp: get_bitvec_def BitsPerWord_def)
  show ?case
  proof (cases b)
    case False
    then have "search_cached_bit c fingerprint n (first, r) = Inr (first, r)"
      using b by (simp add: search_cached_bit_def)
    moreover have "\<And>P. (\<forall>i < Suc n. ?q i \<longrightarrow> P i) \<longleftrightarrow> (\<forall>i < n. ?q i \<longrightarrow> P i)"
      using b False by (auto simp: less_Suc_eq)
    moreover have "(\<forall>i < Suc n. \<not> ?q i) \<longleftrightarrow> (\<forall>i < n. \<not> ?q i)"
      using b False by (auto simp: less_Suc_eq)
    ultimately show ?thesis
      using before first same lr inter
      by (intro exI [of _ first] exI [of _ r]) (simp add: for_loop_append)
  next
    case True
    let ?row = "\<lambda>j. word_at (m_data_cached c)
                     (unat ((of_nat n :: u32) * words_per_fpbit (m_header_cached c) + of_nat j))"
    have row: "\<forall>j < ?W. ?row j = Inr (cell n j)" using Suc.prems(1) by simp
    have Wr: "?W \<le> length r" using len lr by simp
    let ?r' = "if first then map (cell n) [0..<?W] @ drop ?W r
               else map (\<lambda>j. (r ! j) AND cell n j) [0..<?W] @ drop ?W r"
    have step: "search_cached_bit c fingerprint n (first, r) = Inr (False, ?r')"
      using b True assign_row_result [OF row Wr] intersect_row_result [OF row Wr]
      by (simp add: search_cached_bit_def Let_def)
    have l': "length ?r' = length result" using Wr lr by simp
    have bits: "\<forall>j < ?W. \<forall>k. bit (?r' ! j) k \<longleftrightarrow> (\<forall>i < Suc n. ?q i \<longrightarrow> bit (cell i j) k)"
    proof (intro allI impI)
      fix j k
      assume j: "j < ?W"
      show "bit (?r' ! j) k \<longleftrightarrow> (\<forall>i < Suc n. ?q i \<longrightarrow> bit (cell i j) k)"
      proof (cases first)
        case f: True
        then have "?r' ! j = cell n j" using j by (simp add: nth_append)
        moreover have "\<forall>i < n. \<not> ?q i" using f first by simp
        ultimately show ?thesis using b True by (auto simp: less_Suc_eq)
      next
        case f: False
        then have "?r' ! j = (r ! j) AND cell n j" using j by (simp add: nth_append)
        moreover have "bit (r ! j) k \<longleftrightarrow> (\<forall>i < n. ?q i \<longrightarrow> bit (cell i j) k)"
          using inter f j by simp
        ultimately show ?thesis
          using b True by (auto simp: bit_and_iff less_Suc_eq)
      qed
    qed
    have "\<not> (\<forall>i < Suc n. \<not> ?q i)" using b True by auto
    then show ?thesis
      using before step l' bits
      by (intro exI [of _ False] exI [of _ ?r']) (simp add: for_loop_append)
  qed
qed

lemma map_zero_memory: "map zero_memory [0..<n] = replicate n 0"
  by (induction n) (simp_all add: zero_memory_def replicate_append_same)

lemma get_bitvec_matrix_cell:
  assumes "m div 64 < W" and "i * W + m div 64 < length data"
  shows "get_bitvec (i * W * 64 + m) data = Inr (bit (data ! (i * W + m div 64)) (m mod 64))"
proof -
  have "(i * W * 64 + m) div 64 = i * W + m div 64" by simp
  moreover have "(i * W * 64 + m) mod 64 = m mod 64" by simp
  ultimately show ?thesis using assms(2) by (simp add: get_bitvec_def BitsPerWord_def)
qed

text \<open>
  End to end: an archive built by the writer over cleared memory, when a row has room
  for every fingerprint written (\<open>words_per_fpbit\<close> is at least the ceiling) and the
  \<open>unsigned int\<close> bit indices do not wrap, opened by the cached reader and searched
  with a query that has a set bit: bit \<open>m\<close> of the result is set iff fingerprint \<open>m\<close>
  has every bit of the query.
\<close>

lemma inverted_search_correct_when_rows_fit:
  assumes built: "build_archive B N zero_memory fingerprints = Inr file"
    and opened: "InvertedFingerprintFileCached_ctor (Some file) junk_header junk_data = Inr c"
    and width: "length fingerprints \<le> 64 * unat (words_per_fpbit (setup_header B N))"
    and nowrap: "unat B * unat (words_per_fpbit (setup_header B N)) * 64 < 2 ^ 32"
    and readable: "\<forall>fingerprint \<in> set fingerprints. \<forall>i < unat B. i div 64 < length fingerprint"
    and query: "\<forall>i < unat B. i div 64 < length Q"
    and some_bit: "\<exists>i < unat B. get_bitvec i Q = Inr True"
    and result: "unat (words_per_fpbit (setup_header B N)) \<le> length R"
    and m: "m < length fingerprints"
  shows "\<exists>R'. search_cached c Q R = Inr R'
           \<and> get_bitvec m R'
               = Inr (\<forall>i < unat B. get_bitvec i Q = Inr True
                                  \<longrightarrow> get_bitvec i (fingerprints ! m) = Inr True)"
proof -
  let ?h = "setup_header B N"
  let ?W = "unat (words_per_fpbit ?h)" and ?B = "unat B"
  have hB: "bits_per_fingerprint ?h = B" by (simp add: setup_header_def)
  have "?B * ?W \<le> ?B * ?W * 64" by simp
  then have BW: "?B * ?W < 2 ^ 32" using nowrap by (rule le_less_trans)
  have n: "unat (words_per_fpbit ?h * B) = ?W * ?B"
  proof -
    have "?W * ?B < 2 ^ LENGTH(32)" using BW by (simp add: mult.commute)
    then show ?thesis by (simp only: unat_mult_lem)
  qed
  \<comment> \<open>the writer\<close>
  define w where "w = \<lparr> m_header = ?h, m_ofs = bytes_of_header ?h, m_current = 0,
                         m_data = replicate (?W * ?B) (0 :: Word) \<rparr>"
  have ctor: "InvertedFingerprintOutputFile_ctor B N True zero_memory = Inr w"
    by (simp add: InvertedFingerprintOutputFile_ctor_def Let_def w_def hB n map_zero_memory)
  have "\<exists>data. write_all w fingerprints
                  = Inr (w \<lparr> m_data := data, m_current := of_nat (length fingerprints) \<rparr>)
           \<and> length data = unat (words_per_fpbit (m_header w))
                            * unat (bits_per_fingerprint (m_header w))
           \<and> (\<forall>i < unat (bits_per_fingerprint (m_header w)).
                \<forall>m < 64 * unat (words_per_fpbit (m_header w)).
                  get_bitvec (i * unat (words_per_fpbit (m_header w)) * 64 + m) data
                    = Inr (m < length fingerprints
                           \<and> get_bitvec i (fingerprints ! m) = Inr True))"
    using nowrap width readable
    by (intro written_matrix_is_transposed) (simp_all add: w_def hB)
  then obtain data where
    written: "write_all w fingerprints
                = Inr (w \<lparr> m_data := data, m_current := of_nat (length fingerprints) \<rparr>)"
    and len: "length data = ?W * ?B"
    and transposed: "\<forall>i < ?B. \<forall>m < 64 * ?W.
                  get_bitvec (i * ?W * 64 + m) data
                    = Inr (m < length fingerprints
                           \<and> get_bitvec i (fingerprints ! m) = Inr True)"
    by (auto simp: w_def hB)
  \<comment> \<open>the file\<close>
  let ?matrix = "concat (map (le_bytes 8) data)"
  have lm: "length ?matrix = ?W * ?B * 8" by (simp add: length_concat_le_bytes len)
  have bytes: "file = bytes_of_header ?h @ ?matrix"
    using built ctor written lm
    by (simp add: build_archive_def InvertedFingerprintOutputFile_dtor_def w_def hB n)
  have hh: "header_of_bytes (bytes_of_header ?h) = ?h"
    using header_of_bytes_of_header [of ?h "[]"] by simp
  have head: "header_of_bytes (take sizeof_header file) = ?h"
    by (simp add: bytes length_bytes_of_header hh)
  \<comment> \<open>the cached reader\<close>
  have "sizeof_header + unat (words_per_fpbit (header_of_bytes (take sizeof_header file))
                               * bits_per_fingerprint (header_of_bytes (take sizeof_header file))) * 8
           \<le> length file"
    by (simp add: hh hB n bytes length_bytes_of_header lm)
  note reader = InvertedFingerprintFileCached_ctor_enough [OF opened this]
  have ch: "m_header_cached c = ?h" using reader(1) head by simp
  have cd: "m_data_cached c = ?matrix"
    using reader(2) by (simp add: ch hh hB n bytes length_bytes_of_header lm)
  have rows: "\<forall>i < ?B. \<forall>j < unat (words_per_fpbit (m_header_cached c)).
                   word_at (m_data_cached c)
                     (unat ((of_nat i :: u32) * words_per_fpbit (m_header_cached c) + of_nat j))
                   = Inr (data ! (i * ?W + j))"
  proof (intro allI impI)
    fix i j
    assume i: "i < ?B" and "j < unat (words_per_fpbit (m_header_cached c))"
    then have j: "j < ?W" by (simp add: ch)
    note u = unat_row_word [OF i j BW]
    have "i * ?W + j < length data" using u(3) len by (simp add: mult.commute)
    then show "word_at (m_data_cached c)
                 (unat ((of_nat i :: u32) * words_per_fpbit (m_header_cached c) + of_nat j))
               = Inr (data ! (i * ?W + j))"
      by (simp add: cd ch u(2) word_at_concat_le_bytes)
  qed
  \<comment> \<open>the search\<close>
  from search_cached_loop [OF rows query, of R] result obtain first R' where
    loop: "for_loop [0..<?B] (search_cached_bit c Q) (True, R) = Inr (first, R')"
    and first: "first \<longleftrightarrow> (\<forall>i < ?B. get_bitvec i Q \<noteq> Inr True)"
    and lr: "length R' = length R"
    and inter: "\<not> first \<longrightarrow>
                  (\<forall>j < ?W. \<forall>b. bit (R' ! j) b \<longleftrightarrow>
                     (\<forall>i < ?B. get_bitvec i Q = Inr True \<longrightarrow> bit (data ! (i * ?W + j)) b))"
    by (auto simp: ch)
  have found: "search_cached c Q R = Inr R'"
    using loop by (simp add: search_cached_def ch hB)
  have "\<not> first" using first some_bit by auto
  have m64: "m < 64 * ?W" using m width by simp
  then have mW: "m div 64 < ?W" by (simp add: less_mult_imp_div_less mult.commute)
  have "get_bitvec m R' = Inr (bit (R' ! (m div 64)) (m mod 64))"
    using mW result lr by (simp add: get_bitvec_def BitsPerWord_def)
  also have "bit (R' ! (m div 64)) (m mod 64) \<longleftrightarrow>
               (\<forall>i < ?B. get_bitvec i Q = Inr True
                          \<longrightarrow> bit (data ! (i * ?W + m div 64)) (m mod 64))"
    using inter \<open>\<not> first\<close> mW by simp
  also have "\<dots> \<longleftrightarrow> (\<forall>i < ?B. get_bitvec i Q = Inr True
                          \<longrightarrow> get_bitvec i (fingerprints ! m) = Inr True)"
  proof -
    have "\<And>i. i < ?B \<Longrightarrow>
            bit (data ! (i * ?W + m div 64)) (m mod 64)
              \<longleftrightarrow> get_bitvec i (fingerprints ! m) = Inr True"
    proof -
      fix i
      assume i: "i < ?B"
      have "i * ?W + m div 64 < length data"
        using unat_row_word(3) [OF i mW BW] len by (simp add: mult.commute)
      then have "get_bitvec (i * ?W * 64 + m) data
                   = Inr (bit (data ! (i * ?W + m div 64)) (m mod 64))"
        using mW by (intro get_bitvec_matrix_cell)
      then show "bit (data ! (i * ?W + m div 64)) (m mod 64)
              \<longleftrightarrow> get_bitvec i (fingerprints ! m) = Inr True"
        using transposed i m64 m by simp
    qed
    then show ?thesis by auto
  qed
  finally show ?thesis using found by simp
qed

section \<open>The examples, evaluated\<close>



lemma example_cached_opened:
  "InvertedFingerprintFileCached_ctor (Some example_archive) zero_memory zero_memory
     = Inr example_cached"
  by code_simp

lemma example_cached_search: "search_cached example_cached [3] [255] = Inr [1]"
  by code_simp

lemma zero_word_no_bits: "\<forall>i < 64. get_bitvec i [0] = Inr False"
  by (simp add: get_bitvec_def BitsPerWord_def)

lemma example_writer_constructed:
  "InvertedFingerprintOutputFile_ctor 64 32 True zero_memory = Inr example_writer"
  by code_simp

lemma example_writer_filled:
  "write_all example_writer (replicate 32 [0]) = Inr example_writer_full"
proof -
  have "\<forall>i < unat (bits_per_fingerprint (m_header example_writer)). get_bitvec i [0] = Inr False"
    using zero_word_no_bits by (simp add: example_writer_def setup_header_def)
  from write_all_no_bits [OF this, of 32]
  show ?thesis by (simp add: example_writer_full_def example_writer_def)
qed

lemma example_writer_overrun:
  "write_fingerprint example_writer_full [1]
     = Inr (example_writer_full \<lparr> m_data := 4294967296 # replicate 63 0, m_current := 33 \<rparr>)"
  by code_simp

lemma magic_number_bytes: "le_bytes 4 get_magic_number = [1, 0, 101, 72]"
  by code_simp

lemma example_archive_start:
  "take 23 example_archive
     = [1, 0, 101, 72, 64, 0, 0, 0, 64, 0, 0, 0, 1, 0, 0, 0, 1, 0, 0, 0, 64, 0, 0]"
  by code_simp

lemma read_header_empty:
  "read_header \<lparr> contents = [], pos = 0, good = True \<rparr> junk_header =
     (header_of_bytes ([1, 0, 101, 72] @ map junk_header [4..<24]),
      \<lparr> contents = [], pos = 0, good = False \<rparr>)"
  by (simp add: read_header_def open_ifstream_def istream_read_def store_def sizeof_header_def
        magic_number_bytes)

lemma read_header_23:
  "read_header \<lparr> contents = take 23 example_archive, pos = 0, good = True \<rparr> junk_header =
     (header_of_bytes (take 23 example_archive @ [junk_header 23]),
      \<lparr> contents = take 23 example_archive, pos = 23, good = False \<rparr>)"
  by (simp add: example_archive_start read_header_def open_ifstream_def istream_read_def
        store_def sizeof_header_def magic_number_bytes Let_def)

text \<open>What the magic check does catch: a whole header with another magic number.\<close>

lemma wrong_magic_rejected:
  assumes "sizeof_header \<le> length file" and "le_word (take 4 file) \<noteq> get_magic_number"
  shows "InvertedFingerprintFile_ctor (Some file) junk_header junk_data
           = Inl NotAnInvertedFingerprintFile"
    and "InvertedFingerprintFileCached_ctor (Some file) junk_header junk_data
           = Inl NotAnInvertedFingerprintFile"
proof -
  have "magic_number (header_of_bytes (take sizeof_header file)) \<noteq> get_magic_number"
    using assms by (simp add: header_of_bytes_def sizeof_header_def)
  then show "InvertedFingerprintFile_ctor (Some file) junk_header junk_data
           = Inl NotAnInvertedFingerprintFile"
    and "InvertedFingerprintFileCached_ctor (Some file) junk_header junk_data
           = Inl NotAnInvertedFingerprintFile"
    using read_header_enough [OF assms(1)]
    by (simp_all add: InvertedFingerprintFile_ctor_def InvertedFingerprintFileCached_ctor_def
          open_ifstream_def)
qed

lemma unopenable_rejected:
  "InvertedFingerprintFile_ctor None junk_header junk_data = Inl CouldNotOpen"
  "InvertedFingerprintFileCached_ctor None junk_header junk_data = Inl CouldNotOpen"
  by (simp_all add: InvertedFingerprintFile_ctor_def InvertedFingerprintFileCached_ctor_def
        open_ifstream_def)

lemma write_all_append:
  "write_all w (xs @ ys) =
     (case write_all w xs of Inl e \<Rightarrow> Inl e | Inr w' \<Rightarrow> write_all w' ys)"
  unfolding write_all_def by (rule for_loop_append)

lemma writer_65_constructed:
  "InvertedFingerprintOutputFile_ctor 64 65 True zero_memory
     = Inr \<lparr> m_header = setup_header 64 65, m_ofs = bytes_of_header (setup_header 64 65),
             m_current = 0, m_data = replicate 64 0 \<rparr>"
  by code_simp

lemma writer_65_empty_fingerprints:
  "write_all \<lparr> m_header = setup_header 64 65, m_ofs = bytes_of_header (setup_header 64 65),
               m_current = 0, m_data = replicate 64 0 \<rparr> (replicate 64 [0])
     = Inr \<lparr> m_header = setup_header 64 65, m_ofs = bytes_of_header (setup_header 64 65),
             m_current = 64, m_data = replicate 64 0 \<rparr>"
proof -
  let ?w = "\<lparr> m_header = setup_header 64 65, m_ofs = bytes_of_header (setup_header 64 65),
               m_current = 0, m_data = replicate 64 0 \<rparr>"
  have "\<forall>i < unat (bits_per_fingerprint (m_header ?w)). get_bitvec i [0] = Inr False"
    using zero_word_no_bits by (simp add: setup_header_def)
  from write_all_no_bits [OF this, of 64] show ?thesis by simp
qed

lemma writer_65_last_fingerprint:
  "write_all \<lparr> m_header = setup_header 64 65, m_ofs = bytes_of_header (setup_header 64 65),
               m_current = 64, m_data = replicate 64 0 \<rparr> [[1]]
     = Inr \<lparr> m_header = setup_header 64 65, m_ofs = bytes_of_header (setup_header 64 65),
             m_current = 65, m_data = [0, 1] @ replicate 62 0 \<rparr>"
  by code_simp

lemma writer_65_destroyed:
  "InvertedFingerprintOutputFile_dtor
     \<lparr> m_header = setup_header 64 65, m_ofs = bytes_of_header (setup_header 64 65),
       m_current = 65, m_data = [0, 1] @ replicate 62 0 \<rparr> = example_archive_65"
  by code_simp

lemma example_archive_65_built:
  "build_archive 64 65 zero_memory (replicate 64 [0] @ [[1]]) = Inr example_archive_65"
  by (simp only: build_archive_def writer_65_constructed write_all_append
        writer_65_empty_fingerprints writer_65_last_fingerprint writer_65_destroyed
        sum.case)

lemma example_cached_65_opened:
  "InvertedFingerprintFileCached_ctor (Some example_archive_65) zero_memory zero_memory
     = Inr example_cached_65"
  by code_simp

lemma small_archive_out_of_bounds: "build_archive 64 1 zero_memory [[1]] = Inl OutOfBounds"
  by code_simp

text \<open>The example archive is what the writer builds from three fingerprints; the search
  for bits 0 and 1 finds fingerprint 0.\<close>

lemma example_archive_built:
  "build_archive 64 64 zero_memory [[3], [1], [6]] = Inr example_archive"
  by code_simp


lemma inverted_search_correct_example:
  "search_cached example_cached [3] [255] = Inr [1]
   \<and> get_bitvec 0 [1]
       = Inr (\<forall>i < unat (64 :: u32). get_bitvec i [3] = Inr True
                \<longrightarrow> get_bitvec i ([[3], [1], [6]] ! 0) = Inr True)"
proof -
  have width: "length [[3], [1], [6 :: Word]] \<le> 64 * unat (words_per_fpbit (setup_header 64 64))"
    and nowrap: "unat (64 :: u32) * unat (words_per_fpbit (setup_header 64 64)) * 64 < 2 ^ 32"
    and result: "unat (words_per_fpbit (setup_header 64 64)) \<le> length [255 :: Word]"
    by (simp_all add: setup_header_def)
  have readable: "\<forall>fingerprint \<in> set [[3], [1], [6 :: Word]].
                    \<forall>i < unat (64 :: u32). i div 64 < length fingerprint"
    and query: "\<forall>i < unat (64 :: u32). i div 64 < length [3 :: Word]"
    by simp_all
  have "get_bitvec 0 [3] = Inr True" by (simp add: get_bitvec_def BitsPerWord_def)
  then have some_bit: "\<exists>i < unat (64 :: u32). get_bitvec i [3] = Inr True"
    by (intro exI [of _ 0]) simp
  have m: "0 < length [[3], [1], [6 :: Word]]" by simp
  from inverted_search_correct_when_rows_fit
         [OF example_archive_built example_cached_opened width nowrap readable query some_bit
             result m]
  show ?thesis using example_cached_search by simp
qed


text \<open>
  A file that both readers accept but that ends inside the matrix: the header of
  \<^term>\<open>example_archive\<close> and its first row only.  For a query with bits 0 and 1 the seeking reader
  fails to read row 1 and intersects with the row still in its scratch buffer, while the cached
  reader intersects with the part of its buffer that the constructor never filled.
\<close>

lemma readers_differ_on_cut_file:
  "(case InvertedFingerprintFile_ctor (Some (take 32 example_archive)) zero_memory zero_memory of
      Inl e \<Rightarrow> Inl e
    | Inr r \<Rightarrow> map_sum id fst (search_file r [3] [0])) = Inr [3]
   \<and> (case InvertedFingerprintFileCached_ctor (Some (take 32 example_archive)) zero_memory
            zero_memory of
        Inl e \<Rightarrow> Inl e
      | Inr c \<Rightarrow> search_cached c [3] [0]) = Inr [0]"
  by code_simp

section \<open>Results\<close>

text \<open>
  C2. The claim: the writer computes \<open>words_per_fpbit\<close> as the ceiling of
  \<open>N / bits_per_word\<close>, so 2 for \<open>N = 65\<close>. The constructor's formula
  \<open>(N + N % 64) / 64\<close> gives 1 for 65 fingerprints of 1024 bits.
\<close>

theorem words_per_fpbit_65: "words_per_fpbit (setup_header 1024 65) = 1"
  by (simp add: setup_header_def)

text \<open>
  C4 (prime bound). Whatever the molecule and the method, a fingerprint that
  \<open>path_fingerprint\<close>, \<open>tree_fingerprint\<close> or \<open>subgraph_fingerprint\<close> produces has
  bit \<open>i\<close> equal to 0 for every index \<open>i \<ge> hashPrime\<close> of its \<open>numWords * 64\<close> bits.
  (A call that returns a fingerprint has passed the assertion
  \<open>hashPrime \<le> numWords * 64\<close>.)
\<close>

theorem fingerprint_prime_bound:
  assumes "sint hashPrime \<le> int i" and "i < nat (sint numWords) * 64"
  shows "(path_fingerprint enumerate_paths canonicalize_path hash mol fp0 size_k numWords hashPrime = Inr fp
            \<longrightarrow> get_bitvec i fp = Inr False)
       \<and> (tree_fingerprint enumerate_subgraphs canonicalize hash' mol' fp0 size_k numWords hashPrime = Inr fp
            \<longrightarrow> get_bitvec i fp = Inr False)
       \<and> (subgraph_fingerprint enumerate_subgraphs canonicalize hash' mol' fp0 size_k numWords hashPrime = Inr fp
            \<longrightarrow> get_bitvec i fp = Inr False)"
proof (intro conjI impI)
  assume "path_fingerprint enumerate_paths canonicalize_path hash mol fp0 size_k numWords hashPrime = Inr fp"
  from path_fingerprint_Inr [OF this] obtain z where
    "hashPrime_assertion numWords hashPrime" "zero_bitvec fp0 (nat (sint numWords)) = Inr z"
    "for_loop (enumerate_paths mol size_k)
       (\<lambda>path. set_hashed (hash (canonicalize_path mol path)) hashPrime) z = Inr fp"
    by auto
  then show "get_bitvec i fp = Inr False"
    using assms by (rule zeroed_loop_prime_bound)
next
  assume "tree_fingerprint enumerate_subgraphs canonicalize hash' mol' fp0 size_k numWords hashPrime = Inr fp"
  from tree_fingerprint_Inr [OF this] have a: "hashPrime_assertion numWords hashPrime"
    and "SubgraphsFingerprint enumerate_subgraphs canonicalize hash' mol' fp0 size_k True numWords hashPrime = Inr fp"
    by auto
  from SubgraphsFingerprint_Inr [OF this(2)] obtain z where
    "zero_bitvec fp0 (nat (sint numWords)) = Inr z"
    "for_loop (enumerate_subgraphs mol' size_k True)
       (\<lambda>subgraph. set_hashed (hash' (canonicalize mol' subgraph)) hashPrime) z = Inr fp"
    by auto
  with a show "get_bitvec i fp = Inr False"
    using assms by (rule zeroed_loop_prime_bound)
next
  assume "subgraph_fingerprint enumerate_subgraphs canonicalize hash' mol' fp0 size_k numWords hashPrime = Inr fp"
  from subgraph_fingerprint_Inr [OF this] have a: "hashPrime_assertion numWords hashPrime"
    and "SubgraphsFingerprint enumerate_subgraphs canonicalize hash' mol' fp0 size_k False numWords hashPrime = Inr fp"
    by auto
  from SubgraphsFingerprint_Inr [OF this(2)] obtain z where
    "zero_bitvec fp0 (nat (sint numWords)) = Inr z"
    "for_loop (enumerate_subgraphs mol' size_k False)
       (\<lambda>subgraph. set_hashed (hash' (canonicalize mol' subgraph)) hashPrime) z = Inr fp"
    by auto
  with a show "get_bitvec i fp = Inr False"
    using assms by (rule zeroed_loop_prime_bound)
qed

theorem fingerprint_prime_bound_witness:
  "sint (127 :: int32) \<le> int 127 \<and> 127 < nat (sint (2 :: int32)) * 64
   \<and> path_fingerprint example_enumerate_paths example_canonicalize_path example_hash
         [1, 2, 3] [5, 5] 7 2 127 = Inr [8, 18]
   \<and> tree_fingerprint example_enumerate_subgraphs example_canonicalize_path example_hash
         [1, 2, 3] [5, 5] 7 2 127 = Inr [8, 18]
   \<and> get_bitvec 127 [8, 18] = Inr False
   \<and> subgraph_fingerprint example_enumerate_subgraphs example_canonicalize_path example_hash
         [1, 2, 3] [5, 5] 7 2 127 = Inr [512, 0]
   \<and> get_bitvec 127 [512, 0] = Inr False"
proof -
  have h1: "sint (127 :: int32) \<le> int 127" by simp
  have h2: "127 < nat (sint (2 :: int32)) * 64" by simp
  have p: "path_fingerprint example_enumerate_paths example_canonicalize_path example_hash
         [1, 2, 3] [5, 5] 7 2 127 = Inr [8, 18]" by code_simp
  have t: "tree_fingerprint example_enumerate_subgraphs example_canonicalize_path example_hash
         [1, 2, 3] [5, 5] 7 2 127 = Inr [8, 18]" by code_simp
  have s: "subgraph_fingerprint example_enumerate_subgraphs example_canonicalize_path example_hash
         [1, 2, 3] [5, 5] 7 2 127 = Inr [512, 0]" by code_simp
  have "get_bitvec 127 [8, 18] = Inr False"
    by (rule fingerprint_prime_bound [OF h1 h2, THEN conjunct1, THEN mp, OF p])
  moreover have "get_bitvec 127 [512, 0] = Inr False"
    by (rule fingerprint_prime_bound [OF h1 h2, THEN conjunct2, THEN conjunct2, THEN mp, OF s])
  ultimately show ?thesis using h1 h2 p t s by (intro conjI)
qed

text \<open>
  C5 (determinism). For fixed molecule, method and parameters, two calls that write into
  two buffers of \<open>numWords\<close> words with different prior contents give the same
  result: the buffer is zeroed before any bit is set.
\<close>

theorem fingerprint_deterministic:
  assumes "int (length fp1) = sint numWords" and "int (length fp2) = sint numWords"
  shows "path_fingerprint enumerate_paths canonicalize_path hash mol fp1 size_k numWords hashPrime
           = path_fingerprint enumerate_paths canonicalize_path hash mol fp2 size_k numWords hashPrime
       \<and> tree_fingerprint enumerate_subgraphs canonicalize hash' mol' fp1 size_k numWords hashPrime
           = tree_fingerprint enumerate_subgraphs canonicalize hash' mol' fp2 size_k numWords hashPrime
       \<and> subgraph_fingerprint enumerate_subgraphs canonicalize hash' mol' fp1 size_k numWords hashPrime
           = subgraph_fingerprint enumerate_subgraphs canonicalize hash' mol' fp2 size_k numWords hashPrime"
proof -
  have "length fp1 = length fp2" using assms by linarith
  then have "zero_bitvec fp1 (nat (sint numWords)) = zero_bitvec fp2 (nat (sint numWords))"
    using assms by (simp only: zero_bitvec_exact)
  then show ?thesis
    unfolding path_fingerprint_def tree_fingerprint_def subgraph_fingerprint_def
          SubgraphsFingerprint_def EnumerateSubgraphsCallback_def
    by (simp only:)
qed

theorem fingerprint_deterministic_witness:
  "int (length [5, 5 :: Word]) = sint (2 :: int32) \<and> int (length [0, 77 :: Word]) = sint (2 :: int32)
   \<and> path_fingerprint example_enumerate_paths example_canonicalize_path example_hash
         [1, 2, 3] [5, 5] 7 2 127
     = path_fingerprint example_enumerate_paths example_canonicalize_path example_hash
         [1, 2, 3] [0, 77] 7 2 127
   \<and> tree_fingerprint example_enumerate_subgraphs example_canonicalize_path example_hash
         [1, 2, 3] [5, 5] 7 2 127
     = tree_fingerprint example_enumerate_subgraphs example_canonicalize_path example_hash
         [1, 2, 3] [0, 77] 7 2 127
   \<and> subgraph_fingerprint example_enumerate_subgraphs example_canonicalize_path example_hash
         [1, 2, 3] [5, 5] 7 2 127
     = subgraph_fingerprint example_enumerate_subgraphs example_canonicalize_path example_hash
         [1, 2, 3] [0, 77] 7 2 127
   \<and> path_fingerprint example_enumerate_paths example_canonicalize_path example_hash
         [1, 2, 3] [0, 77] 7 2 127 = Inr [8, 18]"
proof -
  have h1: "int (length [5, 5 :: Word]) = sint (2 :: int32)" by simp
  have h2: "int (length [0, 77 :: Word]) = sint (2 :: int32)" by simp
  have p: "path_fingerprint example_enumerate_paths example_canonicalize_path example_hash
         [1, 2, 3] [0, 77] 7 2 127 = Inr [8, 18]" by code_simp
  note d = fingerprint_deterministic [OF h1 h2]
  show ?thesis
    using h1 h2 p d [THEN conjunct1] d [THEN conjunct2, THEN conjunct1]
      d [THEN conjunct2, THEN conjunct2]
    by (intro conjI)
qed

text \<open>
  C9 (writes stay inside the buffer), as amended: for \<open>0 \<le> hashPrime \<le> numWords * 64\<close>
  and a buffer of \<open>numWords\<close> words, the entry assertion holds, every bit index
  \<open>hash mod hashPrime\<close> is below \<open>numWords * 64\<close>, and no call touches memory outside
  the buffer: each of the three functions returns a fingerprint of the same length, or
  stops at the division by \<open>hashPrime = 0\<close>.
\<close>

theorem fingerprint_writes_in_bounds:
  assumes "0 \<le> sint hashPrime" and "sint hashPrime \<le> sint numWords * 64"
    and "int (length fingerprint) = sint numWords"
  shows "hashPrime_assertion numWords hashPrime
       \<and> (\<forall>h. (scast hashPrime :: size_t) \<noteq> 0 \<longrightarrow>
              unat (h mod scast hashPrime :: size_t) < nat (sint numWords) * 64)
       \<and> (case path_fingerprint enumerate_paths canonicalize_path hash mol fingerprint size_k numWords hashPrime of
             Inl e \<Rightarrow> e = DivisionByZero \<and> sint hashPrime = 0
           | Inr fp \<Rightarrow> length fp = length fingerprint)
       \<and> (case tree_fingerprint enumerate_subgraphs canonicalize hash' mol' fingerprint size_k numWords hashPrime of
             Inl e \<Rightarrow> e = DivisionByZero \<and> sint hashPrime = 0
           | Inr fp \<Rightarrow> length fp = length fingerprint)
       \<and> (case subgraph_fingerprint enumerate_subgraphs canonicalize hash' mol' fingerprint size_k numWords hashPrime of
             Inl e \<Rightarrow> e = DivisionByZero \<and> sint hashPrime = 0
           | Inr fp \<Rightarrow> length fp = length fingerprint)"
proof (intro conjI allI impI)
  show a: "hashPrime_assertion numWords hashPrime"
    using assms(1,2) by (rule assertion_holds)
  {
    fix h :: size_t
    assume nz: "(scast hashPrime :: size_t) \<noteq> 0"
    have "unat (scast hashPrime :: size_t) = nat (sint hashPrime)"
      using assms(1) by (rule scast_nonneg)
    moreover have "nat (sint hashPrime) \<le> nat (sint numWords) * 64"
      using assms(1,2) by linarith
    ultimately show "unat (h mod scast hashPrime :: size_t) < nat (sint numWords) * 64"
      using hashed_index_less [OF nz, of h] by linarith
  }
  show "case path_fingerprint enumerate_paths canonicalize_path hash mol fingerprint size_k numWords hashPrime of
          Inl e \<Rightarrow> e = DivisionByZero \<and> sint hashPrime = 0
        | Inr fp \<Rightarrow> length fp = length fingerprint"
    unfolding path_fingerprint_def using a zeroed_loop_in_bounds [OF assms] by simp
  show "case tree_fingerprint enumerate_subgraphs canonicalize hash' mol' fingerprint size_k numWords hashPrime of
          Inl e \<Rightarrow> e = DivisionByZero \<and> sint hashPrime = 0
        | Inr fp \<Rightarrow> length fp = length fingerprint"
    unfolding tree_fingerprint_def SubgraphsFingerprint_def EnumerateSubgraphsCallback_def callback_eq
    using a zeroed_loop_in_bounds [OF assms] by simp
  show "case subgraph_fingerprint enumerate_subgraphs canonicalize hash' mol' fingerprint size_k numWords hashPrime of
          Inl e \<Rightarrow> e = DivisionByZero \<and> sint hashPrime = 0
        | Inr fp \<Rightarrow> length fp = length fingerprint"
    unfolding subgraph_fingerprint_def SubgraphsFingerprint_def EnumerateSubgraphsCallback_def callback_eq
    using a zeroed_loop_in_bounds [OF assms] by simp
qed


theorem fingerprint_writes_in_bounds_witness:
  "0 \<le> sint (127 :: int32) \<and> sint (127 :: int32) \<le> sint (2 :: int32) * 64
   \<and> int (length [5, 5 :: Word]) = sint (2 :: int32)
   \<and> hashPrime_assertion 2 127
   \<and> unat (2100 mod scast (127 :: int32) :: size_t) < nat (sint (2 :: int32)) * 64
   \<and> path_fingerprint example_enumerate_paths example_canonicalize_path example_hash
         [1, 2, 3] [5, 5] 7 2 127 = Inr [8, 18]
   \<and> length [8, 18 :: Word] = length [5, 5 :: Word]"
proof -
  have h1: "0 \<le> sint (127 :: int32)" by simp
  have h2: "sint (127 :: int32) \<le> sint (2 :: int32) * 64" by simp
  have h3: "int (length [5, 5 :: Word]) = sint (2 :: int32)" by simp
  have nz: "(scast (127 :: int32) :: size_t) \<noteq> 0" by simp
  have p: "path_fingerprint example_enumerate_paths example_canonicalize_path example_hash
         [1, 2, 3] [5, 5] 7 2 127 = Inr [8, 18]" by code_simp
  note w = fingerprint_writes_in_bounds [OF h1 h2 h3]
  have "hashPrime_assertion 2 127" by (rule w [THEN conjunct1])
  moreover have "unat (2100 mod scast (127 :: int32) :: size_t) < nat (sint (2 :: int32)) * 64"
    using w [THEN conjunct2, THEN conjunct1] nz by blast
  moreover have "length [8, 18 :: Word] = length [5, 5 :: Word]"
    using w [THEN conjunct2, THEN conjunct2, THEN conjunct1, of example_enumerate_paths
      example_canonicalize_path example_hash "[1, 2, 3]" 7] p by simp
  ultimately show ?thesis using h1 h2 h3 p by (intro conjI)
qed

text \<open>
  The claim as written fails for a negative \<open>hashPrime\<close>: \<open>-1 \<le> 16 * 64\<close>, but the
  assertion compares \<open>hashPrime\<close> as a \<open>size_t\<close> and fails.
\<close>

theorem fingerprint_writes_assertion_counterexample:
  "sint (- 1 :: int32) \<le> sint (16 :: int32) * 64 \<and> \<not> hashPrime_assertion 16 (- 1)
   \<and> path_fingerprint example_enumerate_paths example_canonicalize_path example_hash
         [1, 2, 3] (replicate 16 0) 7 16 (- 1) = Inl AssertionFailed"
  by code_simp

text \<open>
  C1 (inverted archive correctness). The claim: after writing \<open>F_0 .. F_{N-1}\<close>, bit
  \<open>m\<close> of \<open>search(Q)\<close> is set iff \<open>F_m\<close> has every bit of \<open>Q\<close>. With 65
  fingerprints of 64 bits, none but the last with a bit set, and over cleared memory,
  the writer's row is one word wide; fingerprint 64's bit 0 lands in bit 0 of row 1, and
  the search for bit 1 answers with bit 0 set although fingerprint 0 has no bit at all.
\<close>

theorem search_wrong_for_65_fingerprints:
  "build_archive 64 65 zero_memory (replicate 64 [0] @ [[1]]) = Inr example_archive_65
   \<and> InvertedFingerprintFileCached_ctor (Some example_archive_65) zero_memory zero_memory
       = Inr example_cached_65
   \<and> search_cached example_cached_65 [2] [0] = Inr [1]
   \<and> get_bitvec 0 [1] = Inr True
   \<and> get_bitvec 1 [2] = Inr True
   \<and> get_bitvec 1 [0] = Inr False"
proof -
  have "search_cached example_cached_65 [2] [0] = Inr [1]"
    by code_simp
  moreover have "get_bitvec 0 [1] = Inr True" "get_bitvec 1 [2] = Inr True"
    "get_bitvec 1 [0] = Inr False"
    by (simp_all add: get_bitvec_def BitsPerWord_def)
  ultimately show ?thesis
    using example_archive_65_built example_cached_65_opened by (intro conjI)
qed

text \<open>
  C3 (empty query), as amended: for a query without a set bit, both readers leave the
  result buffer as the caller passed it; nothing is written to it.
\<close>

theorem search_empty_query_leaves_result:
  assumes "\<forall>i < unat (bits_per_fingerprint (m_header_file r)). get_bitvec i fingerprint = Inr False"
    and "\<forall>i < unat (bits_per_fingerprint (m_header_cached c)). get_bitvec i fingerprint = Inr False"
  shows "search_file r fingerprint result = Inr (result, r)
       \<and> search_cached c fingerprint result = Inr result"
  using search_file_empty_query [OF assms(1)] search_cached_empty_query [OF assms(2)]
  by simp

theorem search_empty_query_leaves_result_witness:
  "search_file example_reader [0] [255] = Inr ([255], example_reader)
   \<and> search_cached example_cached [0] [255] = Inr [255]"
proof -
  have "\<forall>i < unat (bits_per_fingerprint (m_header_file example_reader)).
          get_bitvec i [0] = Inr False"
    using zero_word_no_bits by (simp add: example_reader_def setup_header_def)
  moreover have "\<forall>i < unat (bits_per_fingerprint (m_header_cached example_cached)).
          get_bitvec i [0] = Inr False"
    using zero_word_no_bits by (simp add: example_cached_def setup_header_def)
  ultimately show ?thesis by (rule search_empty_query_leaves_result)
qed

text \<open>
  The claim as written (the buffer is filled with 0) fails: a buffer that held 255 still
  holds 255 after the search for a query with no bit.
\<close>

theorem search_empty_query_counterexample:
  "get_bitvec 0 [0] = Inr False
   \<and> search_file example_reader [0] [255] = Inr ([255], example_reader)
   \<and> search_cached example_cached [0] [255] = Inr [255]
   \<and> get_bitvec 0 [255] = Inr True"
proof -
  have a: "unat (bits_per_fingerprint (m_header_file example_reader)) = 64"
    by (simp add: example_reader_def setup_header_def)
  have b: "unat (bits_per_fingerprint (m_header_cached example_cached)) = 64"
    by (simp add: example_cached_def setup_header_def)
  have "search_file example_reader [0] [255] = Inr ([255], example_reader)"
    by (rule search_file_empty_query) (simp add: a zero_word_no_bits)
  moreover have "search_cached example_cached [0] [255] = Inr [255]"
    by (rule search_cached_empty_query) (simp add: b zero_word_no_bits)
  moreover have "get_bitvec 0 [0] = Inr False" "get_bitvec 0 [255] = Inr True"
    by (simp_all add: get_bitvec_def BitsPerWord_def)
  ultimately show ?thesis by simp
qed

text \<open>
  C7 (writing past the last fingerprint), as amended: the writer's \<open>write\<close> does not
  compare \<open>m_current\<close> with \<open>num_fingerprints\<close>. Whatever the two are, a call
  whose fingerprint buffer covers \<open>bits_per_fingerprint\<close> bits and whose bit positions
  \<open>i * words_per_fpbit * 64 + m_current\<close> lie inside the matrix is accepted, sets those
  bits and adds one to \<open>m_current\<close>.
\<close>

theorem write_fingerprint_unchecked:
  assumes readable: "\<forall>i < unat (bits_per_fingerprint (m_header w)). i div 64 < length fingerprint"
    and inside: "\<forall>i < unat (bits_per_fingerprint (m_header w)).
           get_bitvec i fingerprint = Inr True \<longrightarrow>
           unat (of_nat i * words_per_fpbit (m_header w) * 64 + m_current w) div 64
             < length (m_data w)"
  shows "\<exists>data. write_fingerprint w fingerprint
                  = Inr (w \<lparr> m_data := data, m_current := m_current w + 1 \<rparr>)
               \<and> length data = length (m_data w)"
proof -
  have "case for_loop [0..<unat (bits_per_fingerprint (m_header w))] (write_bit w fingerprint)
               (m_data w) of
          Inl e \<Rightarrow> False
        | Inr data \<Rightarrow> length data = length (m_data w)"
  proof (rule for_loop_rule [where P = "\<lambda>data. length data = length (m_data w)"])
    show "length (m_data w) = length (m_data w)" by simp
  next
    fix i and data :: "Word list"
    assume i: "i \<in> set [0..<unat (bits_per_fingerprint (m_header w))]"
      and len: "length data = length (m_data w)"
    have "\<exists>data'. write_bit w fingerprint i data = Inr data' \<and> length data' = length data"
      using i readable inside len by (intro write_bit_in_bounds) auto
    then show "case write_bit w fingerprint i data of
                 Inl e \<Rightarrow> False | Inr data' \<Rightarrow> length data' = length (m_data w)"
      using len by auto
  qed
  then show ?thesis by (auto simp: write_fingerprint_def split: sum.splits)
qed


theorem write_fingerprint_unchecked_witness:
  "m_current example_writer_full = num_fingerprints (m_header example_writer_full)
   \<and> write_fingerprint example_writer_full [1]
       = Inr (example_writer_full \<lparr> m_data := 4294967296 # replicate 63 0, m_current := 33 \<rparr>)"
proof -
  have B: "unat (bits_per_fingerprint (m_header example_writer_full)) = 64"
    and W: "words_per_fpbit (m_header example_writer_full) = 1"
    and m: "m_current example_writer_full = 32"
    and l: "length (m_data example_writer_full) = 64"
    by (simp_all add: example_writer_full_def example_writer_def setup_header_def)
  have readable: "\<forall>i < unat (bits_per_fingerprint (m_header example_writer_full)).
                    i div 64 < length [1 :: Word]"
    by (simp add: B)
  have bits: "\<And>i. i < 64 \<Longrightarrow> get_bitvec i [1] = Inr True \<Longrightarrow> i = 0"
    by (auto simp: get_bitvec_def BitsPerWord_def bit_1_iff split: if_splits)
  have inside: "\<forall>i < unat (bits_per_fingerprint (m_header example_writer_full)).
           get_bitvec i [1] = Inr True \<longrightarrow>
           unat (of_nat i * words_per_fpbit (m_header example_writer_full) * 64
                 + m_current example_writer_full) div 64
             < length (m_data example_writer_full)"
  proof (intro allI impI)
    fix i
    assume "i < unat (bits_per_fingerprint (m_header example_writer_full))"
      and "get_bitvec i [1] = Inr True"
    then have "i = 0" using bits by (simp add: B)
    then show "unat (of_nat i * words_per_fpbit (m_header example_writer_full) * 64
                 + m_current example_writer_full) div 64
             < length (m_data example_writer_full)"
      by (simp add: W m l)
  qed
  from write_fingerprint_unchecked [OF readable inside]
  obtain data where
    "write_fingerprint example_writer_full [1]
       = Inr (example_writer_full \<lparr> m_data := data, m_current := m_current example_writer_full + 1 \<rparr>)"
    by blast
  then have "write_fingerprint example_writer_full [1]
       = Inr (example_writer_full \<lparr> m_data := 4294967296 # replicate 63 0, m_current := 33 \<rparr>)"
    using example_writer_overrun by simp
  moreover have "m_current example_writer_full = num_fingerprints (m_header example_writer_full)"
    by (simp add: example_writer_full_def example_writer_def setup_header_def)
  ultimately show ?thesis by simp
qed

text \<open>
  The claim as written (a call after \<open>N\<close> fingerprints fails) is false: a writer for
  32 fingerprints that has taken 32 accepts the next one and counts 33.
\<close>

theorem write_after_last_counterexample:
  "InvertedFingerprintOutputFile_ctor 64 32 True zero_memory = Inr example_writer
   \<and> write_all example_writer (replicate 32 [0]) = Inr example_writer_full
   \<and> m_current example_writer_full = num_fingerprints (m_header example_writer_full)
   \<and> write_fingerprint example_writer_full [1]
       = Inr (example_writer_full \<lparr> m_data := 4294967296 # replicate 63 0, m_current := 33 \<rparr>)"
  using example_writer_constructed example_writer_filled example_writer_overrun
  by (simp add: example_writer_full_def example_writer_def setup_header_def)

text \<open>
  C8 (bad headers are rejected at open). The claim: a wrong magic number or a header
  shorter than 24 bytes is rejected by both readers. Both constructors accept an empty
  file and the first 23 bytes of a valid archive, whatever the uninitialised memory
  holds: the header's constructor has already stored the magic number, and the state of
  the stream after the read is never looked at.
\<close>

theorem truncated_header_accepted:
  "(\<exists>r. InvertedFingerprintFile_ctor (Some []) junk_header junk_data = Inr r)
   \<and> (\<exists>c. InvertedFingerprintFileCached_ctor (Some []) junk_header junk_data = Inr c)
   \<and> (\<exists>r. InvertedFingerprintFile_ctor (Some (take 23 example_archive)) junk_header junk_data
              = Inr r
            \<and> words_per_fpbit (m_header_file r) = 1 \<and> \<not> good (m_ifs_file r))
   \<and> (\<exists>c. InvertedFingerprintFileCached_ctor (Some (take 23 example_archive)) junk_header
              junk_data = Inr c)"
proof (intro conjI)
  have m0: "magic_number (header_of_bytes ([1, 0, 101, 72] @ map junk_header [4..<24]))
              = get_magic_number"
    by (simp add: header_of_bytes_def get_magic_number_def)
  have m23: "magic_number (header_of_bytes (take 23 example_archive @ [junk_header 23]))
              = get_magic_number"
    by (simp add: header_of_bytes_def example_archive_start get_magic_number_def)
  have w23: "words_per_fpbit (header_of_bytes (take 23 example_archive @ [junk_header 23])) = 1"
    by (simp add: header_of_bytes_def example_archive_start)
  show "\<exists>r. InvertedFingerprintFile_ctor (Some []) junk_header junk_data = Inr r"
    using m0 by (simp add: InvertedFingerprintFile_ctor_def open_ifstream_def read_header_empty)
  show "\<exists>c. InvertedFingerprintFileCached_ctor (Some []) junk_header junk_data = Inr c"
    using m0 by (simp add: InvertedFingerprintFileCached_ctor_def open_ifstream_def
        read_header_empty Let_def split: prod.splits)
  show "\<exists>r. InvertedFingerprintFile_ctor (Some (take 23 example_archive)) junk_header junk_data
              = Inr r
            \<and> words_per_fpbit (m_header_file r) = 1 \<and> \<not> good (m_ifs_file r)"
    using m23 w23
    by (simp add: InvertedFingerprintFile_ctor_def open_ifstream_def read_header_23)
  show "\<exists>c. InvertedFingerprintFileCached_ctor (Some (take 23 example_archive)) junk_header
              junk_data = Inr c"
    using m23 by (simp add: InvertedFingerprintFileCached_ctor_def open_ifstream_def
        read_header_23 Let_def split: prod.splits)
qed



text \<open>
  C10 (the row-major reader), as amended. The constructor takes \<open>num_fingerprints\<close> from
  the first four bytes of the file and always sets 16 words per fingerprint.
  \<open>read_fingerprint\<close> returns \<open>false\<close> without touching anything when the stream has
  failed, and \<open>false\<close> on the one call at which \<open>current + 1\<close> equals
  \<open>num_fingerprints\<close>; on every other call, those after that one included, it adds one to
  \<open>current\<close> and reads 16 words, returning \<open>true\<close> when all 128 bytes were there and
  \<open>false\<close> when the stream failed on the way. From a fresh reader over a file with
  \<open>N\<close> fingerprints, \<open>N\<close> calls return \<open>true\<close> and the next returns \<open>false\<close>.
\<close>

theorem read_fingerprint_contract:
  "m_numWords (FingerprintFile_ctor file junk) = 16
   \<and> current (FingerprintFile_ctor file junk) = - 1
   \<and> (4 \<le> length bytes \<longrightarrow>
        m_numFingerprints (FingerprintFile_ctor (Some bytes) junk) = le_word (take 4 bytes)
        \<and> m_ifs (FingerprintFile_ctor (Some bytes) junk)
            = \<lparr> contents = bytes, pos = 4, good = True \<rparr>)
   \<and> (\<not> good (m_ifs ff) \<longrightarrow> read_fingerprint ff fingerprint = Inr (False, fingerprint, ff))
   \<and> (good (m_ifs ff) \<and> current ff + 1 = m_numFingerprints ff \<longrightarrow>
        read_fingerprint ff fingerprint
          = Inr (False, fingerprint, ff \<lparr> m_current_fp := current ff + 1 \<rparr>))
   \<and> (good (m_ifs ff) \<and> current ff + 1 \<noteq> m_numFingerprints ff \<and> m_numWords ff = 16
        \<and> 16 \<le> length fingerprint \<and> pos (m_ifs ff) + 128 \<le> length (contents (m_ifs ff)) \<longrightarrow>
        read_fingerprint ff fingerprint
          = Inr (True,
                 words_from (contents (m_ifs ff)) (pos (m_ifs ff)) 16 @ drop 16 fingerprint,
                 ff \<lparr> m_current_fp := current ff + 1,
                      m_ifs := (m_ifs ff) \<lparr> pos := pos (m_ifs ff) + 128, good := True \<rparr> \<rparr>))
   \<and> (good (m_ifs ff) \<and> current ff + 1 \<noteq> m_numFingerprints ff \<and> m_numWords ff = 16
        \<and> 16 \<le> length fingerprint \<and> pos (m_ifs ff) \<le> length (contents (m_ifs ff))
        \<and> \<not> pos (m_ifs ff) + 128 \<le> length (contents (m_ifs ff)) \<longrightarrow>
        (\<exists>fingerprint' ff'. read_fingerprint ff fingerprint = Inr (False, fingerprint', ff')
           \<and> current ff' = current ff + 1 \<and> \<not> good (m_ifs ff')))
   \<and> (4 + 128 * unat (le_word (take 4 bytes) :: u32) \<le> length bytes \<and> 16 \<le> length fingerprint
        \<longrightarrow>
        (\<exists>fingerprint' ff'.
           read_fingerprints (Suc (unat (le_word (take 4 bytes) :: u32)))
             (FingerprintFile_ctor (Some bytes) junk) fingerprint
             = Inr (replicate (unat (le_word (take 4 bytes) :: u32)) True @ [False],
                    fingerprint', ff')
           \<and> current ff' = le_word (take 4 bytes)))"
proof (intro conjI impI)
  show "m_numWords (FingerprintFile_ctor file junk) = 16"
    by (simp add: FingerprintFile_ctor_def Let_def split: prod.splits)
  show "current (FingerprintFile_ctor file junk) = - 1"
    by (simp add: current_def FingerprintFile_ctor_def Let_def split: prod.splits)
next
  assume "4 \<le> length bytes"
  then have "read32 \<lparr> contents = bytes, pos = 0, good = True \<rparr> junk
               = (le_word (take 4 bytes), \<lparr> contents = bytes, pos = 4, good = True \<rparr>)"
    by (subst read32_enough) simp_all
  then show "m_numFingerprints (FingerprintFile_ctor (Some bytes) junk) = le_word (take 4 bytes)"
    and "m_ifs (FingerprintFile_ctor (Some bytes) junk)
           = \<lparr> contents = bytes, pos = 4, good = True \<rparr>"
    by (simp_all add: FingerprintFile_ctor_def open_ifstream_def)
next
  assume "\<not> good (m_ifs ff)"
  then show "read_fingerprint ff fingerprint = Inr (False, fingerprint, ff)"
    by (simp add: read_fingerprint_def)
next
  assume "good (m_ifs ff) \<and> current ff + 1 = m_numFingerprints ff"
  then show "read_fingerprint ff fingerprint
          = Inr (False, fingerprint, ff \<lparr> m_current_fp := current ff + 1 \<rparr>)"
    by (simp add: read_fingerprint_def current_def)
next
  assume a: "good (m_ifs ff) \<and> current ff + 1 \<noteq> m_numFingerprints ff \<and> m_numWords ff = 16
        \<and> 16 \<le> length fingerprint \<and> pos (m_ifs ff) + 128 \<le> length (contents (m_ifs ff))"
  then have "for_loop [0..<16] read_word (fingerprint, m_ifs ff) =
           Inr (words_from (contents (m_ifs ff)) (pos (m_ifs ff)) 16 @ drop 16 fingerprint,
                (m_ifs ff) \<lparr> pos := pos (m_ifs ff) + 8 * 16, good := True \<rparr>)"
    by (intro read_words_enough) simp_all
  then show "read_fingerprint ff fingerprint
          = Inr (True,
                 words_from (contents (m_ifs ff)) (pos (m_ifs ff)) 16 @ drop 16 fingerprint,
                 ff \<lparr> m_current_fp := current ff + 1,
                      m_ifs := (m_ifs ff) \<lparr> pos := pos (m_ifs ff) + 128, good := True \<rparr> \<rparr>)"
    using a by (simp add: read_fingerprint_def current_def)
next
  assume a: "good (m_ifs ff) \<and> current ff + 1 \<noteq> m_numFingerprints ff \<and> m_numWords ff = 16
        \<and> 16 \<le> length fingerprint \<and> pos (m_ifs ff) \<le> length (contents (m_ifs ff))
        \<and> \<not> pos (m_ifs ff) + 128 \<le> length (contents (m_ifs ff))"
  then obtain fp' ifs' where
    "for_loop [0..<16] read_word (fingerprint, m_ifs ff) = Inr (fp', ifs')"
    and "good ifs' \<longleftrightarrow> pos (m_ifs ff) + 8 * 16 \<le> length (contents (m_ifs ff))"
    using read_words_state [of "m_ifs ff" 16 fingerprint] by auto
  then show "\<exists>fingerprint' ff'. read_fingerprint ff fingerprint = Inr (False, fingerprint', ff')
           \<and> current ff' = current ff + 1 \<and> \<not> good (m_ifs ff')"
    using a by (simp add: read_fingerprint_def current_def)
next
  let ?ff = "FingerprintFile_ctor (Some bytes) junk"
  assume a: "4 + 128 * unat (le_word (take 4 bytes) :: u32) \<le> length bytes
             \<and> 16 \<le> length fingerprint"
  then have "read32 \<lparr> contents = bytes, pos = 0, good = True \<rparr> junk
               = (le_word (take 4 bytes), \<lparr> contents = bytes, pos = 4, good = True \<rparr>)"
    by (subst read32_enough) simp_all
  then have ff: "?ff = \<lparr> m_ifs = \<lparr> contents = bytes, pos = 4, good = True \<rparr>,
                       m_numFingerprints = le_word (take 4 bytes),
                       m_current_fp = - 1, m_numWords = 16 \<rparr>"
    by (simp add: FingerprintFile_ctor_def open_ifstream_def)
  have "\<exists>fingerprint' ff'.
           read_fingerprints (Suc (unat (le_word (take 4 bytes) :: u32))) ?ff fingerprint
             = Inr (replicate (unat (le_word (take 4 bytes) :: u32)) True @ [False],
                    fingerprint', ff')
           \<and> current ff' = m_numFingerprints ?ff"
    using a by (intro read_fingerprints_until_count) (simp_all add: ff current_def)
  then show "\<exists>fingerprint' ff'.
           read_fingerprints (Suc (unat (le_word (take 4 bytes) :: u32))) ?ff fingerprint
             = Inr (replicate (unat (le_word (take 4 bytes) :: u32)) True @ [False],
                    fingerprint', ff')
           \<and> current ff' = le_word (take 4 bytes)"
    by (simp add: ff)
qed

theorem read_fingerprint_contract_witness:
  "FingerprintFile_ctor (Some example_fingerprint_file) 7 = example_fingerprint_reader
   \<and> m_numWords (FingerprintFile_ctor (Some example_fingerprint_file) 7) = 16
   \<and> current (FingerprintFile_ctor (Some example_fingerprint_file) 7) = - 1
   \<and> m_numFingerprints (FingerprintFile_ctor (Some example_fingerprint_file) 7)
       = le_word (take 4 example_fingerprint_file)
   \<and> m_numFingerprints example_fingerprint_reader = 1
   \<and> read_fingerprint example_fingerprint_reader (replicate 16 0)
       = Inr (True, map of_nat [1..<17], example_fingerprint_reader_1)
   \<and> read_fingerprint example_fingerprint_reader_1 (map of_nat [1..<17])
       = Inr (False, map of_nat [1..<17], example_fingerprint_reader_1 \<lparr> m_current_fp := 1 \<rparr>)
   \<and> read_fingerprint (FingerprintFile_ctor None 7) (replicate 16 0)
       = Inr (False, replicate 16 0, FingerprintFile_ctor None 7)
   \<and> read_fingerprints 2 (FingerprintFile_ctor (Some example_fingerprint_file) 7) (replicate 16 0)
       = Inr ([True, False], map of_nat [1..<17],
              example_fingerprint_reader_1 \<lparr> m_current_fp := 1 \<rparr>)"
proof -
  note opened = read_fingerprint_contract
      [of "Some example_fingerprint_file" 7 example_fingerprint_file]
  have words: "m_numWords (FingerprintFile_ctor (Some example_fingerprint_file) 7) = 16"
    by (rule opened [THEN conjunct1])
  have cur: "current (FingerprintFile_ctor (Some example_fingerprint_file) 7) = - 1"
    by (rule opened [THEN conjunct2, THEN conjunct1])
  have num: "m_numFingerprints (FingerprintFile_ctor (Some example_fingerprint_file) 7)
       = le_word (take 4 example_fingerprint_file)"
    using opened [THEN conjunct2, THEN conjunct2, THEN conjunct1]
    by (simp add: example_fingerprint_file_length)
  note first = read_fingerprint_contract
      [of _ _ _ example_fingerprint_reader "replicate 16 0",
       THEN conjunct2, THEN conjunct2, THEN conjunct2, THEN conjunct2, THEN conjunct2,
       THEN conjunct1]
  have r0: "read_fingerprint example_fingerprint_reader (replicate 16 0)
       = Inr (True, map of_nat [1..<17], example_fingerprint_reader_1)"
    using first example_fingerprint_words
    by (simp add: example_fingerprint_reader_def example_fingerprint_reader_1_def current_def
          example_fingerprint_file_length)
  note second = read_fingerprint_contract
      [of _ _ _ example_fingerprint_reader_1 "map of_nat [1..<17]",
       THEN conjunct2, THEN conjunct2, THEN conjunct2, THEN conjunct2, THEN conjunct1]
  have r1: "read_fingerprint example_fingerprint_reader_1 (map of_nat [1..<17])
       = Inr (False, map of_nat [1..<17], example_fingerprint_reader_1 \<lparr> m_current_fp := 1 \<rparr>)"
    using second by (simp add: example_fingerprint_reader_1_def current_def)
  note failed = read_fingerprint_contract
      [of _ _ _ "FingerprintFile_ctor None 7" "replicate 16 0",
       THEN conjunct2, THEN conjunct2, THEN conjunct2, THEN conjunct1]
  have r2: "read_fingerprint (FingerprintFile_ctor None 7) (replicate 16 0)
       = Inr (False, replicate 16 0, FingerprintFile_ctor None 7)"
    using failed by (simp add: FingerprintFile_ctor_def open_ifstream_def)
  have n1: "m_numFingerprints example_fingerprint_reader = 1"
    by (simp add: example_fingerprint_reader_def)
  have "read_fingerprints (Suc (Suc 0)) example_fingerprint_reader (replicate 16 0)
       = Inr ([True, False], map of_nat [1..<17],
              example_fingerprint_reader_1 \<lparr> m_current_fp := 1 \<rparr>)"
    by (simp only: read_fingerprints.simps r0 r1 sum.case prod.case)
  then have r3: "read_fingerprints 2 (FingerprintFile_ctor (Some example_fingerprint_file) 7)
         (replicate 16 0)
       = Inr ([True, False], map of_nat [1..<17],
              example_fingerprint_reader_1 \<lparr> m_current_fp := 1 \<rparr>)"
    by (simp only: example_fingerprint_reader_opened numeral_2_eq_2)
  show ?thesis
    using example_fingerprint_reader_opened words cur num n1 r0 r1 r2 r3 by (intro conjI)
qed

text \<open>
  The claim as written (\<open>false\<close> once \<open>num_fingerprints\<close> fingerprints have been
  yielded) fails for the call after the one at the count: over a file with count 1 and 256
  more bytes, the first two calls return \<open>true\<close> and \<open>false\<close>; one fingerprint has been
  yielded, the stream is good and \<open>current\<close> is \<open>num_fingerprints\<close>, yet the third call
  returns \<open>true\<close> and yields the words 17 to 32.
\<close>

theorem read_after_count_counterexample:
  "m_numFingerprints (FingerprintFile_ctor (Some example_fingerprint_file_long) 7) = 1
   \<and> read_fingerprints 2 (FingerprintFile_ctor (Some example_fingerprint_file_long) 7)
         (replicate 16 0)
       = Inr ([True, False], map of_nat [1..<17], example_fingerprint_reader_long 132 1)
   \<and> good (m_ifs (example_fingerprint_reader_long 132 1))
   \<and> current (example_fingerprint_reader_long 132 1)
       = m_numFingerprints (example_fingerprint_reader_long 132 1)
   \<and> read_fingerprint (example_fingerprint_reader_long 132 1) (map of_nat [1..<17])
       = Inr (True, map of_nat [17..<33], example_fingerprint_reader_long 260 2)
   \<and> read_fingerprints 3 (FingerprintFile_ctor (Some example_fingerprint_file_long) 7)
         (replicate 16 0)
       = Inr ([True, False, True], map of_nat [17..<33], example_fingerprint_reader_long 260 2)"
proof -
  have two: "read_fingerprints (Suc (Suc 0)) (example_fingerprint_reader_long 4 (- 1))
               (replicate 16 0)
       = Inr ([True, False], map of_nat [1..<17], example_fingerprint_reader_long 132 1)"
    by (simp only: read_fingerprints.simps example_long_first example_long_second
          sum.case prod.case)
  have three: "read_fingerprints (Suc (Suc (Suc 0))) (example_fingerprint_reader_long 4 (- 1))
                 (replicate 16 0)
       = Inr ([True, False, True], map of_nat [17..<33], example_fingerprint_reader_long 260 2)"
    by (simp only: read_fingerprints.simps example_long_first example_long_second
          example_long_third sum.case prod.case)
  have "m_numFingerprints (example_fingerprint_reader_long 4 (- 1)) = 1"
    "good (m_ifs (example_fingerprint_reader_long 132 1))"
    "current (example_fingerprint_reader_long 132 1)
       = m_numFingerprints (example_fingerprint_reader_long 132 1)"
    by (simp_all add: example_fingerprint_reader_long_def current_def)
  then show ?thesis
    using two three example_long_third
    by (simp only: example_fingerprint_reader_long_opened numeral_2_eq_2 numeral_3_eq_3 simp_thms)
qed

end
